theory Spec2Isabelle
  imports Complex_Main
begin

section \<open>The elastic scheduler of Zoe (zoe_master/scheduler/elastic_scheduler.py)\<close>

text \<open>
  A shallow embedding of \<^verbatim>\<open>ZoeElasticScheduler\<close>. Executions are mutable Python
  objects shared between the queues, so the model keeps them in an explicit store
  (\<open>objects\<close>) addressed by the execution id, and the queues hold ids. Equality of
  executions (\<^verbatim>\<open>list.remove\<close>, \<^verbatim>\<open>in\<close>) is equality of ids, and the key
  \<^verbatim>\<open>execution.id\<close> of \<^verbatim>\<open>additional_exec_state\<close> is the address itself.
  Sizes, core counts and time stamps are Python numbers that become floats under
  \<^verbatim>\<open>/\<close> and \<^verbatim>\<open>time.time()\<close>; they are modelled by exact reals (rounding is
  not modelled). Exceptions are values of \<open>py_error\<close>.
\<close>

subsection \<open>Data model\<close>

datatype py_error =
  ValueError | KeyError | AssertionError | UnsupportedSchedulerPolicyError | ZoeException

text \<open>Modelled from the spec: the values of \<^verbatim>\<open>Service.backend_status\<close>
  (\<^verbatim>\<open>zoe_lib.state\<close> is not part of the sources); the source names
  \<^verbatim>\<open>BACKEND_START_STATUS\<close> and \<^verbatim>\<open>BACKEND_DIE_STATUS\<close>.\<close>

datatype backend_status =
  BACKEND_UNDEFINED_STATUS | BACKEND_START_STATUS | BACKEND_DIE_STATUS | BACKEND_DESTROY_STATUS

text \<open>Modelled from the spec: the values of \<^verbatim>\<open>Execution.status\<close>; the source names
  \<^verbatim>\<open>TERMINATED_STATUS\<close>.\<close>

datatype execution_status =
  SUBMITTED_STATUS | SCHEDULED_STATUS | STARTING_STATUS | IMAGE_DOWNLOAD_STATUS
  | RUNNING_STATUS | CLEANING_UP_STATUS | TERMINATED_STATUS | ERROR_STATUS

text \<open>The attributes of a service that the scheduler reads:
  \<^verbatim>\<open>id\<close>, \<^verbatim>\<open>essential\<close>, \<^verbatim>\<open>backend_status\<close>, \<^verbatim>\<open>backend_host\<close> and
  \<^verbatim>\<open>resource_reservation.cores.min\<close>; the simulator reads
  \<^verbatim>\<open>resource_reservation.memory.min\<close> (in bytes).\<close>

record service =
  service_id :: nat
  essential :: bool
  backend_status :: backend_status
  backend_host :: string
  cores_min :: real
  memory_min :: int

text \<open>The attributes of an execution that the scheduler reads and writes: \<^verbatim>\<open>status\<close>,
  \<^verbatim>\<open>size\<close>, \<^verbatim>\<open>total_reservations.cores.min\<close>,
  \<^verbatim>\<open>total_reservations.memory.min\<close> and \<^verbatim>\<open>services\<close>.\<close>

record execution =
  status :: execution_status
  exec_size :: real
  total_cores_min :: real
  total_memory_min :: real
  services :: "service list"

record execution_progress =
  last_time_scheduled :: real
  progress_sequence :: "real list"

text \<open>\<^verbatim>\<open>ExecutionProgress.__init__\<close>\<close>

definition ExecutionProgress :: execution_progress where
  "ExecutionProgress = \<lparr>last_time_scheduled = 0, progress_sequence = []\<rparr>"

text \<open>Calls to \<^verbatim>\<open>zoe_master.backends.interface\<close>, recorded in issue order. A call to
  \<^verbatim>\<open>update_service_resource_limits\<close> carries exactly the keyword arguments the
  caller passes.\<close>

datatype backend_call =
  Start_essential nat "(nat \<times> string) list" string
  | Start_elastic nat "(nat \<times> string) list"
  | Terminate_service service
  | Update_service_resource_limits service "(string \<times> real) list"

text \<open>The scheduler object. \<open>async_threads\<close> holds one entry (the execution id) per
  termination thread started; \<open>locks\<close> is the set of executions whose
  \<^verbatim>\<open>termination_lock\<close> is held; \<open>trigger_semaphore\<close> counts pending triggers;
  \<open>calls\<close> is the trace of backend calls.\<close>

record scheduler =
  policy :: string
  queue :: "nat list"
  queue_running :: "nat list"
  additional_exec_state :: "nat \<Rightarrow> execution_progress option"
  async_threads :: "nat list"
  trigger_semaphore :: nat
  core_limit_recalc_trigger :: bool
  objects :: "nat \<Rightarrow> execution"
  locks :: "nat set"
  calls :: "backend_call list"

subsection \<open>Queue operations\<close>

definition trigger :: "scheduler \<Rightarrow> scheduler" where
  "trigger s = s\<lparr>trigger_semaphore := Suc (trigger_semaphore s)\<rparr>"

definition incoming :: "scheduler \<Rightarrow> nat \<Rightarrow> scheduler" where
  "incoming s execution =
     (let exec_data = ExecutionProgress;
          s1 = s\<lparr>additional_exec_state := (additional_exec_state s)(execution \<mapsto> exec_data)\<rparr>;
          s2 = s1\<lparr>queue := queue s1 @ [execution]\<rparr>
      in trigger s2)"

text \<open>\<^verbatim>\<open>list.remove(x)\<close>: drops the first occurrence, \<open>None\<close> stands for ValueError.\<close>

definition list_remove :: "nat \<Rightarrow> nat list \<Rightarrow> nat list option" where
  "list_remove x xs = (if x \<in> set xs then Some (remove1 x xs) else None)"

text \<open>\<^verbatim>\<open>terminate\<close>. The termination thread itself runs asynchronously
  (it calls \<^verbatim>\<open>terminate_execution\<close> and triggers the scheduler); the model records
  that it was started.\<close>

definition terminate :: "scheduler \<Rightarrow> nat \<Rightarrow> scheduler" where
  "terminate s execution =
     (case (case list_remove execution (queue s) of
              Some q \<Rightarrow> Some (s\<lparr>queue := q\<rparr>)
            | None \<Rightarrow>
                (case list_remove execution (queue_running s) of
                   Some r \<Rightarrow> Some (s\<lparr>queue_running := r\<rparr>)
                 | None \<Rightarrow> None)) of
        None \<Rightarrow> s
      | Some s1 \<Rightarrow>
          (let s2 = s1\<lparr>additional_exec_state := (additional_exec_state s1)(execution := None)\<rparr>;
               s3 = s2\<lparr>core_limit_recalc_trigger := True\<rparr>
           in s3\<lparr>async_threads := async_threads s3 @ [execution]\<rparr>))"

subsection \<open>Statistics\<close>

record scheduler_stats =
  queue_length :: nat
  running_length :: nat
  termination_threads_count :: nat
  stats_queue :: "nat list"
  running_queue :: "nat list"

text \<open>\<^verbatim>\<open>sorted(self.queue, key=...)\<close> is a stable sort, as \<open>sort_key\<close> is.\<close>

definition stats :: "scheduler \<Rightarrow> scheduler_stats" where
  "stats s =
     (let q = (if policy s = ''SIZE''
               then sort_key (\<lambda>execution. exec_size (objects s execution)) (queue s)
               else queue s)
      in \<lparr>queue_length = length (queue s),
          running_length = length (queue_running s),
          termination_threads_count = length (async_threads s),
          stats_queue = q,
          running_queue = queue_running s\<rparr>)"

text \<open>The in-place sort at the head of the inner loop of \<^verbatim>\<open>loop_start_th\<close>.\<close>

definition sort_queue :: "scheduler \<Rightarrow> scheduler" where
  "sort_queue s =
     (if policy s = ''SIZE'' \<or> policy s = ''DYNSIZE''
      then s\<lparr>queue := sort_key (\<lambda>execution. exec_size (objects s execution)) (queue s)\<rparr>
      else s)"


subsection \<open>Collaborators whose code is outside the scheduler\<close>

text \<open>
  The derived flags of an execution (\<^verbatim>\<open>is_running\<close>,
  \<^verbatim>\<open>essential_services_running\<close>, \<^verbatim>\<open>all_services_active\<close>,
  \<^verbatim>\<open>all_services_running\<close>) are properties of \<^verbatim>\<open>zoe_lib.state.Execution\<close>, and
  \<^verbatim>\<open>start_essential\<close>, \<^verbatim>\<open>start_elastic\<close>, \<^verbatim>\<open>terminate_service\<close> belong to
  \<^verbatim>\<open>zoe_master.backends.interface\<close>. Neither module is part of the sources, so they
  are parameters: the flags are predicates on the execution object, the backend
  functions return the object as they leave it (and, for \<^verbatim>\<open>start_essential\<close>,
  the result string).
\<close>

record collaborators =
  is_running :: "execution \<Rightarrow> bool"
  essential_services_running :: "execution \<Rightarrow> bool"
  all_services_active :: "execution \<Rightarrow> bool"
  all_services_running :: "execution \<Rightarrow> bool"
  start_essential :: "execution \<Rightarrow> (nat \<times> string) list \<Rightarrow> string \<times> execution"
  start_elastic :: "execution \<Rightarrow> (nat \<times> string) list \<Rightarrow> execution"
  terminate_service :: "service \<Rightarrow> service"

text \<open>Modelled from the spec: the mutators of \<^verbatim>\<open>zoe_lib.state\<close> that the scheduler
  calls. \<^verbatim>\<open>restarted()\<close> "clears the die flag back to start", \<^verbatim>\<open>set_running\<close> and
  \<^verbatim>\<open>set_cleaning_up\<close> set the status, \<^verbatim>\<open>set_size\<close> stores the size.\<close>

definition restarted :: "service \<Rightarrow> service" where
  "restarted sv = sv\<lparr>backend_status := BACKEND_START_STATUS\<rparr>"

definition update_object :: "scheduler \<Rightarrow> nat \<Rightarrow> (execution \<Rightarrow> execution) \<Rightarrow> scheduler" where
  "update_object s execution f = s\<lparr>objects := (objects s)(execution := f (objects s execution))\<rparr>"

definition set_running :: "scheduler \<Rightarrow> nat \<Rightarrow> scheduler" where
  "set_running s execution = update_object s execution (\<lambda>e. e\<lparr>status := RUNNING_STATUS\<rparr>)"

definition set_cleaning_up :: "scheduler \<Rightarrow> nat \<Rightarrow> scheduler" where
  "set_cleaning_up s execution = update_object s execution (\<lambda>e. e\<lparr>status := CLEANING_UP_STATUS\<rparr>)"

definition set_size :: "scheduler \<Rightarrow> nat \<Rightarrow> real \<Rightarrow> scheduler" where
  "set_size s execution v = update_object s execution (\<lambda>e. e\<lparr>exec_size := v\<rparr>)"

subsection \<open>Construction\<close>

text \<open>\<^verbatim>\<open>__init__\<close>: \<open>running\<close> is the result of
  \<^verbatim>\<open>state.executions.select(status='running')\<close>, \<open>objs\<close> the execution objects. The
  two threads are started with nothing to do.\<close>

definition empty_scheduler :: "string \<Rightarrow> (nat \<Rightarrow> execution) \<Rightarrow> scheduler" where
  "empty_scheduler pol objs =
     \<lparr>policy = pol, queue = [], queue_running = [], additional_exec_state = Map.empty,
      async_threads = [], trigger_semaphore = 0, core_limit_recalc_trigger = False,
      objects = objs, locks = {}, calls = []\<rparr>"

definition recover :: "collaborators \<Rightarrow> nat \<Rightarrow> scheduler \<Rightarrow> scheduler" where
  "recover env execution s =
     (if all_services_running env (objects s execution)
      then s\<lparr>queue_running := queue_running s @ [execution]\<rparr>
      else s\<lparr>queue := queue s @ [execution],
             additional_exec_state := (additional_exec_state s)(execution \<mapsto> ExecutionProgress)\<rparr>)"

definition init :: "collaborators \<Rightarrow> string \<Rightarrow> (nat \<Rightarrow> execution) \<Rightarrow> nat list \<Rightarrow> py_error + scheduler" where
  "init env pol objs running =
     (if pol \<noteq> ''FIFO'' \<and> pol \<noteq> ''SIZE'' \<and> pol \<noteq> ''DYNSIZE''
      then Inl UnsupportedSchedulerPolicyError
      else Inr (fold (recover env) running (empty_scheduler pol objs)))"

subsection \<open>Size refresh, lock acquisition, requeue\<close>

text \<open>\<^verbatim>\<open>_refresh_execution_sizes\<close>. \<open>now\<close> is the reading of \<^verbatim>\<open>time.time()\<close>. A
  function that can raise returns the exception (if any) together with the state it
  leaves behind.\<close>

fun refresh_loop :: "real \<Rightarrow> nat list \<Rightarrow> scheduler \<Rightarrow> py_error option \<times> scheduler" where
  "refresh_loop now [] s = (None, s)"
| "refresh_loop now (execution # rest) s =
     (case additional_exec_state s execution of
        None \<Rightarrow> (Some KeyError, s)
      | Some exec_data \<Rightarrow>
          if last_time_scheduled exec_data = 0 then refresh_loop now rest s
          else if exec_size (objects s execution) \<le> 0 then
            refresh_loop now rest
              (set_size s execution
                 (total_cores_min (objects s execution) * total_memory_min (objects s execution)))
          else
            (let new_size = exec_size (objects s execution)
                            - (now - last_time_scheduled exec_data) * (256 * 1024 ^ 2)
             in refresh_loop now rest (set_size s execution new_size)))"

definition refresh_execution_sizes :: "real \<Rightarrow> scheduler \<Rightarrow> py_error option \<times> scheduler" where
  "refresh_execution_sizes now s =
     (if policy s = ''FIFO'' then (None, s)
      else if policy s = ''SIZE'' then (None, s)
      else if policy s = ''DYNSIZE'' then refresh_loop now (queue s) s
      else (None, s))"

text \<open>\<^verbatim>\<open>_pop_all\<close>: a non-blocking acquire succeeds exactly when the lock is free. An
  execution whose lock was acquired but whose status is terminated is thrown away
  with its lock still held.\<close>

fun pop_all_loop :: "nat list \<Rightarrow> scheduler \<Rightarrow> nat list \<Rightarrow> nat list \<times> scheduler" where
  "pop_all_loop [] s out_list = (out_list, s)"
| "pop_all_loop (execution # rest) s out_list =
     (let ret = (execution \<notin> locks s);
          s1 = (if ret then s\<lparr>locks := insert execution (locks s)\<rparr> else s)
      in if ret \<and> status (objects s1 execution) \<noteq> TERMINATED_STATUS
         then pop_all_loop rest s1 (out_list @ [execution])
         else pop_all_loop rest s1 out_list)"

definition pop_all :: "scheduler \<Rightarrow> nat list \<times> scheduler" where
  "pop_all s = pop_all_loop (queue s) s []"

definition release_lock :: "scheduler \<Rightarrow> nat \<Rightarrow> scheduler" where
  "release_lock s execution = s\<lparr>locks := locks s - {execution}\<rparr>"

text \<open>\<^verbatim>\<open>_requeue\<close>; the final sanity check only logs.\<close>

definition requeue :: "real \<Rightarrow> scheduler \<Rightarrow> nat \<Rightarrow> py_error option \<times> scheduler" where
  "requeue now s execution =
     (let s1 = release_lock s execution
      in case additional_exec_state s1 execution of
           None \<Rightarrow> (Some KeyError, s1)
         | Some exec_data \<Rightarrow>
             (None, s1\<lparr>additional_exec_state :=
                         (additional_exec_state s1)
                           (execution \<mapsto> exec_data\<lparr>last_time_scheduled := now\<rparr>)\<rparr>))"

fun requeue_pass :: "real \<Rightarrow> nat list \<Rightarrow> scheduler \<Rightarrow> py_error option \<times> scheduler" where
  "requeue_pass now [] s = (None, s)"
| "requeue_pass now (job # rest) s =
     (case requeue now s job of
        (Some err, s1) \<Rightarrow> (Some err, s1)
      | (None, s1) \<Rightarrow> requeue_pass now rest s1)"

subsection \<open>Dead-service detector\<close>

text \<open>
  \<^verbatim>\<open>_check_dead_services\<close>. A Python \<^verbatim>\<open>for\<close> loop over a list reads the list by
  position and stops when the position reaches the current length. Both sweeps
  remove elements from \<^verbatim>\<open>queue_running\<close> while they iterate over it, so they are
  modelled by position: \<open>i\<close> is the position of the iterator.

  The inner loop over \<^verbatim>\<open>execution.services\<close> acts on the first service that
  satisfies the test and breaks: \<open>find_dead\<close> gives its position.
\<close>

fun find_dead :: "bool \<Rightarrow> service list \<Rightarrow> nat option" where
  "find_dead ess [] = None"
| "find_dead ess (sv # svs) =
     (if essential sv = ess \<and> backend_status sv = BACKEND_DIE_STATUS then Some 0
      else map_option Suc (find_dead ess svs))"

definition update_service :: "nat \<Rightarrow> (service \<Rightarrow> service) \<Rightarrow> execution \<Rightarrow> execution" where
  "update_service k f e = e\<lparr>services := (services e)[k := f (services e ! k)]\<rparr>"

definition essential_body :: "scheduler \<Rightarrow> nat \<Rightarrow> scheduler" where
  "essential_body s i =
     (let execution = queue_running s ! i
      in case find_dead True (services (objects s execution)) of
           None \<Rightarrow> s
         | Some k \<Rightarrow>
             (let s1 = update_object s execution (update_service k restarted);
                  s2 = set_cleaning_up s1 execution
              in terminate s2 execution))"

function essential_sweep :: "nat \<Rightarrow> scheduler \<Rightarrow> scheduler" where
  "essential_sweep i s =
     (if i < length (queue_running s) then essential_sweep (Suc i) (essential_body s i) else s)"
  by pat_completeness auto
termination
proof (relation "measure (\<lambda>(i, s). length (queue_running s) - i)")
  show "wf (measure (\<lambda>(i, s). length (queue_running s) - i))" by simp
next
  fix i :: nat and s :: scheduler
  assume less: "i < length (queue_running s)"
  have shrink: "length (queue_running (terminate t e)) \<le> length (queue_running t)" for t e
    by (simp add: terminate_def list_remove_def Let_def length_remove1)
  have "length (queue_running (essential_body s i)) \<le> length (queue_running s)"
  proof (cases "find_dead True (services (objects s (queue_running s ! i)))")
    case None
    then show ?thesis by (simp add: essential_body_def)
  next
    case (Some k)
    define t where "t = set_cleaning_up
        (update_object s (queue_running s ! i) (update_service k restarted)) (queue_running s ! i)"
    have "queue_running t = queue_running s"
      by (simp add: t_def set_cleaning_up_def update_object_def)
    moreover have "essential_body s i = terminate t (queue_running s ! i)"
      by (simp add: essential_body_def Some t_def Let_def)
    ultimately show ?thesis using shrink [of t "queue_running s ! i"] by simp
  qed
  with less show "((Suc i, essential_body s i), (i, s))
                    \<in> measure (\<lambda>(i, s). length (queue_running s) - i)"
    by simp
qed

definition elastic_body :: "collaborators \<Rightarrow> scheduler \<Rightarrow> nat \<Rightarrow> scheduler" where
  "elastic_body env s i =
     (let execution = queue_running s ! i
      in case find_dead False (services (objects s execution)) of
           None \<Rightarrow> s
         | Some k \<Rightarrow>
             (let sv = services (objects s execution) ! k;
                  s1 = (update_object s execution (update_service k (terminate_service env)))
                         \<lparr>calls := calls s @ [Terminate_service sv]\<rparr>;
                  s2 = update_object s1 execution (update_service k restarted);
                  s3 = s2\<lparr>queue_running := remove1 execution (queue_running s2)\<rparr>
              in s3\<lparr>queue := queue s3 @ [execution]\<rparr>))"

function elastic_sweep :: "collaborators \<Rightarrow> nat \<Rightarrow> scheduler \<Rightarrow> scheduler" where
  "elastic_sweep env i s =
     (if i < length (queue_running s) then elastic_sweep env (Suc i) (elastic_body env s i)
      else s)"
  by pat_completeness auto
termination
proof (relation "measure (\<lambda>(env, i, s). length (queue_running s) - i)")
  show "wf (measure (\<lambda>(env, i, s). length (queue_running s) - i))" by simp
next
  fix env :: collaborators and i :: nat and s :: scheduler
  assume less: "i < length (queue_running s)"
  have "length (queue_running (elastic_body env s i)) \<le> length (queue_running s)"
    by (simp add: elastic_body_def Let_def update_object_def length_remove1
        split: option.splits)
  with less show "((env, Suc i, elastic_body env s i), (env, i, s))
                    \<in> measure (\<lambda>(env, i, s). length (queue_running s) - i)"
    by simp
qed

definition check_dead_services :: "collaborators \<Rightarrow> scheduler \<Rightarrow> scheduler" where
  "check_dead_services env s = elastic_sweep env 0 (essential_sweep 0 s)"

subsection \<open>Placement simulation\<close>

text \<open>
  \<^verbatim>\<open>zoe_master.scheduler.simulated_platform\<close> is not part of the sources; the
  candidate loop of \<^verbatim>\<open>loop_start_th\<close> takes the operations of the simulator as
  parameters over an arbitrary simulator state \<open>'p\<close>, built from a platform state
  \<open>'c\<close>.
\<close>

record ('p, 'c) simulator =
  sim_new :: "'c \<Rightarrow> 'p"
  sim_deallocate_elastic :: "'p \<Rightarrow> execution \<Rightarrow> 'p"
  sim_allocate_essential :: "'p \<Rightarrow> execution \<Rightarrow> bool \<times> 'p"
  sim_allocate_elastic :: "'p \<Rightarrow> execution \<Rightarrow> 'p"
  sim_aggregated_free_memory :: "'p \<Rightarrow> int"
  sim_get_service_allocation :: "'p \<Rightarrow> (nat \<times> string) list"

text \<open>The body of the candidate loop for one \<open>job\<close>. The result says whether the loop
  breaks, and gives \<^verbatim>\<open>jobs_to_launch\<close> (after the append, before any revert),
  \<^verbatim>\<open>current_free_resources\<close> and the simulator.\<close>

definition placement_step ::
  "('p, 'c) simulator \<Rightarrow> collaborators \<Rightarrow> (nat \<Rightarrow> execution) \<Rightarrow> nat
     \<Rightarrow> nat list \<times> int \<times> 'p \<Rightarrow> bool \<times> nat list \<times> int \<times> 'p" where
  "placement_step sim env objs job st =
     (let (jobs_to_launch, free_resources, p) = st;
          p1 = fold (\<lambda>job_aux q. sim_deallocate_elastic sim q (objs job_aux)) jobs_to_launch p;
          (job_can_start, p2) =
             (if \<not> is_running env (objs job) then sim_allocate_essential sim p1 (objs job)
              else (False, p1));
          jobs_to_launch1 =
             (if job_can_start \<or> is_running env (objs job) then jobs_to_launch @ [job]
              else jobs_to_launch);
          p3 = fold (\<lambda>job_aux q. sim_allocate_elastic sim q (objs job_aux)) jobs_to_launch1 p2;
          current_free_resources = sim_aggregated_free_memory sim p3
      in (current_free_resources \<ge> free_resources, jobs_to_launch1, current_free_resources, p3))"

fun placement_loop ::
  "('p, 'c) simulator \<Rightarrow> collaborators \<Rightarrow> (nat \<Rightarrow> execution) \<Rightarrow> nat list
     \<Rightarrow> nat list \<times> int \<times> 'p \<Rightarrow> nat list \<times> int \<times> 'p" where
  "placement_loop sim env objs [] st = st"
| "placement_loop sim env objs (job # rest) st =
     (let jobs_to_launch_copy = fst st;
          (stop, jobs_to_launch, current_free_resources, p) = placement_step sim env objs job st
      in if stop then (jobs_to_launch_copy, fst (snd st), p)
         else placement_loop sim env objs rest (jobs_to_launch, current_free_resources, p))"


subsection \<open>Committing the simulation\<close>

text \<open>Lines 259 to 282: the steps taken for one \<open>job\<close> of \<^verbatim>\<open>jobs_to_launch\<close>. The loop
  state is \<^verbatim>\<open>jobs_to_attempt_scheduling\<close> together with the scheduler.\<close>

definition discard_fatal :: "nat \<Rightarrow> nat list \<times> scheduler \<Rightarrow> py_error option \<times> nat list \<times> scheduler" where
  "discard_fatal job cs =
     (let (jobs_to_attempt_scheduling, s) = cs
      in case list_remove job jobs_to_attempt_scheduling of
           None \<Rightarrow> (Some ValueError, jobs_to_attempt_scheduling, s)
         | Some cands \<Rightarrow>
             (case list_remove job (queue s) of
                None \<Rightarrow> (Some ValueError, cands, s)
              | Some q \<Rightarrow> (None, cands, release_lock (s\<lparr>queue := q\<rparr>) job)))"

definition launch ::
  "collaborators \<Rightarrow> (nat \<times> string) list \<Rightarrow> nat \<Rightarrow> nat list \<times> scheduler
     \<Rightarrow> py_error option \<times> nat list \<times> scheduler" where
  "launch env placements job cs =
     (let (jobs_to_attempt_scheduling, s) = cs;
          s1 = (update_object s job (\<lambda>e. start_elastic env e placements))
                 \<lparr>calls := calls s @ [Start_elastic job placements]\<rparr>
      in if all_services_active env (objects s1 job) then
           (let s2 = release_lock s1 job
            in case list_remove job jobs_to_attempt_scheduling of
                 None \<Rightarrow> (Some ValueError, jobs_to_attempt_scheduling, s2)
               | Some cands \<Rightarrow>
                   (case list_remove job (queue s2) of
                      None \<Rightarrow> (Some ValueError, cands, s2)
                    | Some q \<Rightarrow>
                        (None, cands, s2\<lparr>queue := q, queue_running := queue_running s2 @ [job]\<rparr>)))
         else (None, jobs_to_attempt_scheduling, s1))"

definition commit_job ::
  "collaborators \<Rightarrow> (nat \<times> string) list \<Rightarrow> real \<Rightarrow> nat \<Rightarrow> nat list \<times> scheduler
     \<Rightarrow> py_error option \<times> nat list \<times> scheduler" where
  "commit_job env placements now job cs =
     (let (jobs_to_attempt_scheduling, s) = cs
      in if \<not> essential_services_running env (objects s job) then
           (let (ret, e) = start_essential env (objects s job) placements;
                s1 = (update_object s job (\<lambda>_. e))
                       \<lparr>calls := calls s @ [Start_essential job placements ret]\<rparr>
            in if ret = ''fatal'' then discard_fatal job (jobs_to_attempt_scheduling, s1)
               else if ret = ''requeue'' then
                 (case requeue now s1 job of (err, s2) \<Rightarrow> (err, jobs_to_attempt_scheduling, s2))
               else if ret = ''ok'' then
                 launch env placements job (jobs_to_attempt_scheduling, set_running s1 job)
               else (Some AssertionError, jobs_to_attempt_scheduling, s1))
         else launch env placements job cs)"

fun commit_loop ::
  "collaborators \<Rightarrow> (nat \<times> string) list \<Rightarrow> real \<Rightarrow> nat list \<Rightarrow> nat list \<times> scheduler
     \<Rightarrow> py_error option \<times> nat list \<times> scheduler" where
  "commit_loop env placements now [] cs = (None, cs)"
| "commit_loop env placements now (job # rest) cs =
     (case commit_job env placements now job cs of
        (Some err, cs1) \<Rightarrow> (Some err, cs1)
      | (None, cs1) \<Rightarrow> commit_loop env placements now rest cs1)"

text \<open>Lines 259 to 287: the commit loop, the signal to the core-limit thread and the
  end-of-round requeue pass over what is left of \<^verbatim>\<open>jobs_to_attempt_scheduling\<close>.\<close>

definition commit_phase ::
  "collaborators \<Rightarrow> (nat \<times> string) list \<Rightarrow> real \<Rightarrow> nat list \<Rightarrow> nat list \<times> scheduler
     \<Rightarrow> py_error option \<times> scheduler" where
  "commit_phase env placements now jobs_to_launch cs =
     (case commit_loop env placements now jobs_to_launch cs of
        (Some err, cands, s1) \<Rightarrow> (Some err, s1)
      | (None, cands, s1) \<Rightarrow> requeue_pass now cands (s1\<lparr>core_limit_recalc_trigger := True\<rparr>))"

text \<open>Lines 207 to 287: one pass of the inner loop. \<open>platform_state\<close> is the value of
  \<^verbatim>\<open>metrics.current_stats\<close>, \<open>None\<close> when it raises ZoeException.\<close>

definition inner_pass ::
  "('p, 'c) simulator \<Rightarrow> collaborators \<Rightarrow> real \<Rightarrow> 'c option \<Rightarrow> scheduler
     \<Rightarrow> py_error option \<times> scheduler" where
  "inner_pass sim env now platform_state s =
     (case refresh_execution_sizes now s of
        (Some err, s1) \<Rightarrow> (Some err, s1)
      | (None, s1) \<Rightarrow>
          (let s2 = sort_queue s1;
               (jobs_to_attempt_scheduling, s3) = pop_all s2
           in case platform_state of
                None \<Rightarrow> requeue_pass now jobs_to_attempt_scheduling s3
              | Some st \<Rightarrow>
                  (let cluster_status_snapshot = sim_new sim st;
                       free_resources = sim_aggregated_free_memory sim cluster_status_snapshot;
                       (jobs_to_launch, _, p) =
                          placement_loop sim env (objects s3) jobs_to_attempt_scheduling
                            ([], free_resources, cluster_status_snapshot);
                       placements = sim_get_service_allocation sim p
                   in commit_phase env placements now jobs_to_launch
                        (jobs_to_attempt_scheduling, s3))))"

text \<open>The backend calls issued between a state \<open>s\<close> and a later state \<open>s'\<close>.\<close>

definition round_calls :: "scheduler \<Rightarrow> scheduler \<Rightarrow> backend_call list" where
  "round_calls s s' = drop (length (calls s)) (calls s')"

subsection \<open>Core-limit rebalancer\<close>

text \<open>A node of the cluster snapshot (\<^verbatim>\<open>NodeStats\<close>), with the attributes read by the
  rebalancer and by the simulator.\<close>

record node_stats =
  node_name :: string
  cores_total :: real
  cores_reserved :: real
  memory_total :: int
  memory_reserved :: int

text \<open>Modelled from the spec: \<^verbatim>\<open>state.services.select(backend_host=..., backend_status=...)\<close>,
  the filtered selection of the state store, over the list \<open>store\<close> of all services.\<close>

definition select_services :: "service list \<Rightarrow> string \<Rightarrow> backend_status \<Rightarrow> service list" where
  "select_services store host st =
     filter (\<lambda>sv. backend_host sv = host \<and> backend_status sv = st) store"

text \<open>The last loop of the node body: \<^verbatim>\<open>new_core_allocations[service.id]\<close> is a
  dictionary lookup.\<close>

fun issue_updates ::
  "(nat \<Rightarrow> real option) \<Rightarrow> real \<Rightarrow> service list \<Rightarrow> py_error option \<times> backend_call list" where
  "issue_updates new_core_allocations cores_to_add [] = (None, [])"
| "issue_updates new_core_allocations cores_to_add (sv # rest) =
     (case new_core_allocations (service_id sv) of
        None \<Rightarrow> (Some KeyError, [])
      | Some c \<Rightarrow>
          (case issue_updates new_core_allocations cores_to_add rest of
             (err, cs) \<Rightarrow>
               (err, Update_service_resource_limits sv [(''cores'', c + cores_to_add)] # cs)))"

text \<open>The body of \<^verbatim>\<open>for node in stats.nodes\<close>: the calls issued for one node.\<close>

definition adjust_node :: "service list \<Rightarrow> node_stats \<Rightarrow> py_error option \<times> backend_call list" where
  "adjust_node store node =
     (let node_services = select_services store (node_name node) BACKEND_START_STATUS
      in if length node_services = 0 then (None, [])
         else
           (let new_core_allocations =
                  fold (\<lambda>sv m. m(service_id sv \<mapsto> cores_min sv)) node_services Map.empty;
                cores_to_add =
                  (if cores_reserved node < cores_total node
                   then (cores_total node - cores_reserved node) / real (length node_services)
                   else 0)
            in issue_updates new_core_allocations cores_to_add node_services))"

text \<open>One cycle of \<^verbatim>\<open>_adjust_core_limits\<close> over the nodes of the snapshot.\<close>

fun adjust_core_limits :: "service list \<Rightarrow> node_stats list \<Rightarrow> py_error option \<times> backend_call list" where
  "adjust_core_limits store [] = (None, [])"
| "adjust_core_limits store (node # nodes) =
     (case adjust_node store node of
        (Some err, cs) \<Rightarrow> (Some err, cs)
      | (None, cs) \<Rightarrow>
          (case adjust_core_limits store nodes of (err, cs') \<Rightarrow> (err, cs @ cs')))"


subsection \<open>The simulated platform\<close>

text \<open>
  Modelled from the spec: \<^verbatim>\<open>SimulatedPlatform\<close>
  (\<^verbatim>\<open>zoe_master/scheduler/simulated_platform.py\<close> is not part of the sources). The
  platform holds a copy of the nodes of the snapshot and the placements, a list of
  (service id, position of the node), newest first. A service fits a node when
  reserving its \<^verbatim>\<open>memory.min\<close> leaves the node's reserved memory at most its total;
  the node chosen is the first one that fits. \<open>allocate_essential\<close> places the
  essential services one after the other and, when one does not fit, rolls back the
  ones already placed, newest first, and returns false.
\<close>

record simulated_platform =
  sp_nodes :: "node_stats list"
  sp_placements :: "(nat \<times> nat) list"

definition SimulatedPlatform :: "node_stats list \<Rightarrow> simulated_platform" where
  "SimulatedPlatform platform_state = \<lparr>sp_nodes = platform_state, sp_placements = []\<rparr>"

definition service_fits :: "node_stats \<Rightarrow> service \<Rightarrow> bool" where
  "service_fits node sv \<longleftrightarrow> memory_reserved node + memory_min sv \<le> memory_total node"

fun first_fit :: "node_stats list \<Rightarrow> service \<Rightarrow> nat option" where
  "first_fit [] sv = None"
| "first_fit (node # nodes) sv =
     (if service_fits node sv then Some 0 else map_option Suc (first_fit nodes sv))"

definition reserve :: "int \<Rightarrow> node_stats \<Rightarrow> node_stats" where
  "reserve m node = node\<lparr>memory_reserved := memory_reserved node + m\<rparr>"

definition place :: "simulated_platform \<Rightarrow> nat \<Rightarrow> service \<Rightarrow> simulated_platform" where
  "place p i sv =
     p\<lparr>sp_nodes := (sp_nodes p)[i := reserve (memory_min sv) (sp_nodes p ! i)],
       sp_placements := (service_id sv, i) # sp_placements p\<rparr>"

definition unplace :: "simulated_platform \<Rightarrow> nat \<Rightarrow> service \<Rightarrow> simulated_platform" where
  "unplace p i sv =
     p\<lparr>sp_nodes := (sp_nodes p)[i := reserve (- memory_min sv) (sp_nodes p ! i)],
       sp_placements := remove1 (service_id sv, i) (sp_placements p)\<rparr>"

definition rollback :: "(nat \<times> service) list \<Rightarrow> simulated_platform \<Rightarrow> simulated_platform" where
  "rollback placed p = fold (\<lambda>(i, sv) q. unplace q i sv) placed p"

fun allocate_loop ::
  "service list \<Rightarrow> (nat \<times> service) list \<Rightarrow> simulated_platform
     \<Rightarrow> bool \<times> (nat \<times> service) list \<times> simulated_platform" where
  "allocate_loop [] placed p = (True, placed, p)"
| "allocate_loop (sv # rest) placed p =
     (case first_fit (sp_nodes p) sv of
        None \<Rightarrow> (False, [], rollback placed p)
      | Some i \<Rightarrow> allocate_loop rest ((i, sv) # placed) (place p i sv))"

text \<open>The services placed by a successful call, newest first, with the position of
  their nodes.\<close>

definition essential_placements :: "simulated_platform \<Rightarrow> execution \<Rightarrow> (nat \<times> service) list" where
  "essential_placements p e = fst (snd (allocate_loop (filter essential (services e)) [] p))"

text \<open>The memory reserved on the node at position \<open>i\<close> by a list of placed services.\<close>

definition placed_on :: "nat \<Rightarrow> (nat \<times> service) list \<Rightarrow> int" where
  "placed_on i new = sum_list (map (\<lambda>(j, sv). memory_min sv) (filter (\<lambda>(j, sv). j = i) new))"

definition allocate_essential :: "simulated_platform \<Rightarrow> execution \<Rightarrow> bool \<times> simulated_platform" where
  "allocate_essential p e =
     (case allocate_loop (filter essential (services e)) [] p of (ok, placed, q) \<Rightarrow> (ok, q))"




definition aggregated_free_memory :: "simulated_platform \<Rightarrow> int" where
  "aggregated_free_memory p =
     sum_list (map (\<lambda>node. memory_total node - memory_reserved node) (sp_nodes p))"



subsection \<open>Reference formulas\<close>

text \<open>The size an execution has after a refresh under DYNSIZE, in the words of the
  amended statement of the size refresh: unchanged when it was never scheduled, reset
  to \<^verbatim>\<open>cores.min * memory.min\<close> when its size was not positive, and otherwise aged
  by 256 MiB for each second since it was last scheduled.\<close>

definition refreshed_size :: "real \<Rightarrow> scheduler \<Rightarrow> nat \<Rightarrow> real" where
  "refreshed_size now s e =
     (case additional_exec_state s e of
        None \<Rightarrow> exec_size (objects s e)
      | Some exec_data \<Rightarrow>
          if last_time_scheduled exec_data = 0 then exec_size (objects s e)
          else if exec_size (objects s e) \<le> 0
            then total_cores_min (objects s e) * total_memory_min (objects s e)
          else exec_size (objects s e) - (now - last_time_scheduled exec_data) * 268435456)"

text \<open>The rebalancer in the words of the spec: the started services of a node, the
  extra share of a node with \<open>n\<close> started services, and the calls for a node.\<close>

definition started_on :: "service list \<Rightarrow> node_stats \<Rightarrow> service list" where
  "started_on store node =
     filter (\<lambda>sv. backend_host sv = node_name node \<and> backend_status sv = BACKEND_START_STATUS)
       store"

definition spec_extra :: "node_stats \<Rightarrow> nat \<Rightarrow> real" where
  "spec_extra node n =
     (if cores_reserved node < cores_total node
      then (cores_total node - cores_reserved node) / real n else 0)"

definition spec_node_updates :: "service list \<Rightarrow> node_stats \<Rightarrow> backend_call list" where
  "spec_node_updates store node =
     map (\<lambda>sv. Update_service_resource_limits sv
                 [(''cores'', cores_min sv + spec_extra node (length (started_on store node)))])
       (started_on store node)"

subsection \<open>Concrete configurations\<close>

text \<open>Small configurations on which the theorems below are exercised: a service on
  node N1 reserving one core and 2 bytes, an execution reserving one core and 1 GiB,
  and collaborators whose flags read the status fields and whose
  \<^verbatim>\<open>start_essential\<close> returns a fixed result.\<close>

definition example_service :: "nat \<Rightarrow> bool \<Rightarrow> backend_status \<Rightarrow> service" where
  "example_service n ess st =
     \<lparr>service_id = n, essential = ess, backend_status = st, backend_host = ''N1'',
      cores_min = 1, memory_min = 2\<rparr>"

definition example_execution :: "real \<Rightarrow> service list \<Rightarrow> execution" where
  "example_execution sz svs =
     \<lparr>status = SUBMITTED_STATUS, exec_size = sz, total_cores_min = 1,
      total_memory_min = 1073741824, services = svs\<rparr>"

definition example_env :: "string \<Rightarrow> collaborators" where
  "example_env ret =
     \<lparr>is_running = (\<lambda>e. status e = RUNNING_STATUS),
      essential_services_running =
        (\<lambda>e. list_all (\<lambda>sv. backend_status sv = BACKEND_START_STATUS)
                      (filter essential (services e))),
      all_services_active =
        (\<lambda>e. list_all (\<lambda>sv. backend_status sv = BACKEND_START_STATUS) (services e)),
      all_services_running =
        (\<lambda>e. list_all (\<lambda>sv. backend_status sv = BACKEND_START_STATUS) (services e)),
      start_essential = (\<lambda>e placements. (ret, e)),
      start_elastic = (\<lambda>e placements. e),
      terminate_service = (\<lambda>sv. sv)\<rparr>"

definition example_objects :: "(nat \<times> execution) list \<Rightarrow> nat \<Rightarrow> execution" where
  "example_objects al n = (case map_of al n of Some e \<Rightarrow> e | None \<Rightarrow> example_execution 0 [])"

text \<open>Two running executions that each hold a dead elastic service.\<close>

definition two_dead_elastic :: scheduler where
  "two_dead_elastic =
     (empty_scheduler ''FIFO''
        (example_objects
           [(1, example_execution 100 [example_service 10 True BACKEND_START_STATUS,
                                      example_service 11 False BACKEND_DIE_STATUS]),
            (2, example_execution 10 [example_service 20 False BACKEND_DIE_STATUS])]))
     \<lparr>queue_running := [1, 2]\<rparr>"

text \<open>Two running executions that each hold a dead essential service; the second one
  holds a dead elastic service as well.\<close>

definition two_dead_essential :: scheduler where
  "two_dead_essential =
     (empty_scheduler ''FIFO''
        (example_objects
           [(1, example_execution 100 [example_service 10 True BACKEND_DIE_STATUS]),
            (2, example_execution 10 [example_service 20 True BACKEND_DIE_STATUS,
                                     example_service 21 False BACKEND_DIE_STATUS])]))
     \<lparr>queue_running := [1, 2]\<rparr>"

text \<open>A scheduler built under DYNSIZE from a state store whose only running execution
  has all its services running, and the same scheduler after the elastic service of
  that execution has died.\<close>

definition recovered_objects :: "nat \<Rightarrow> execution" where
  "recovered_objects =
     example_objects
       [(1, example_execution 100 [example_service 10 True BACKEND_START_STATUS,
                                  example_service 11 False BACKEND_START_STATUS])]"

definition recovered_running :: scheduler where
  "recovered_running =
     fold (recover (example_env ''ok'')) [1] (empty_scheduler ''DYNSIZE'' recovered_objects)"

definition recovered_then_died :: scheduler where
  "recovered_then_died =
     update_object recovered_running 1
       (update_service 1 (\<lambda>sv. sv\<lparr>backend_status := BACKEND_DIE_STATUS\<rparr>))"

text \<open>A DYNSIZE scheduler at time 11 whose queue holds execution 1 (100 MiB, last
  scheduled at time 10), execution 2 (size 0, last scheduled at time 10) and
  execution 3 (never scheduled).\<close>

definition aged_queue :: scheduler where
  "aged_queue =
     (empty_scheduler ''DYNSIZE''
        (example_objects
           [(1, example_execution 104857600 []), (2, example_execution 0 []),
            (3, example_execution 7 [])]))
     \<lparr>queue := [1, 2, 3],
      additional_exec_state :=
        [1 \<mapsto> \<lparr>last_time_scheduled = 10, progress_sequence = []\<rparr>,
         2 \<mapsto> \<lparr>last_time_scheduled = 10, progress_sequence = []\<rparr>,
         3 \<mapsto> ExecutionProgress]\<rparr>"

text \<open>A node with the given total and reserved cores, and a state store with four
  started services on node N1 and one service that has died.\<close>

definition example_node :: "string \<Rightarrow> real \<Rightarrow> real \<Rightarrow> node_stats" where
  "example_node n ct cr =
     \<lparr>node_name = n, cores_total = ct, cores_reserved = cr,
      memory_total = 8, memory_reserved = 0\<rparr>"

definition example_store :: "service list" where
  "example_store =
     [example_service 1 True BACKEND_START_STATUS, example_service 2 False BACKEND_START_STATUS,
      example_service 3 False BACKEND_DIE_STATUS, example_service 4 False BACKEND_START_STATUS,
      example_service 5 True BACKEND_START_STATUS]"



text \<open>A platform of two nodes with 8 bytes each, an execution whose five essential
  services (and one elastic service) fit, and one whose nine essential services do
  not.\<close>

definition two_nodes :: simulated_platform where
  "two_nodes = SimulatedPlatform [example_node ''N1'' 4 0, example_node ''N2'' 4 0]"

definition fitting_execution :: execution where
  "fitting_execution =
     example_execution 1
       (map (\<lambda>n. example_service n (n \<noteq> 3) BACKEND_UNDEFINED_STATUS) [1, 2, 3, 4, 5, 6])"

definition oversized_execution :: execution where
  "oversized_execution =
     example_execution 1
       (map (\<lambda>n. example_service n True BACKEND_UNDEFINED_STATUS) [1, 2, 3, 4, 5, 6, 7, 8, 9])"

text \<open>A scheduler in the middle of a round: executions 1 and 2 are queued and both
  termination locks are held. The essential service of execution 1 is not running;
  execution 2 has its essential service running and an elastic service that is
  not.\<close>

definition commit_objects :: "nat \<Rightarrow> execution" where
  "commit_objects =
     example_objects
       [(1, example_execution 1 [example_service 10 True BACKEND_UNDEFINED_STATUS]),
        (2, example_execution 2 [example_service 20 True BACKEND_START_STATUS,
                                 example_service 21 False BACKEND_UNDEFINED_STATUS])]"

definition popped :: scheduler where
  "popped =
     (empty_scheduler ''FIFO'' commit_objects)
     \<lparr>queue := [1, 2],
      additional_exec_state := [1 \<mapsto> ExecutionProgress, 2 \<mapsto> ExecutionProgress],
      locks := {1, 2}\<rparr>"

section \<open>Properties\<close>

lemma list_remove_append_new:
  "x \<notin> set xs \<Longrightarrow> list_remove x (xs @ [x]) = Some xs"
  by (simp add: list_remove_def remove1_append)

text \<open>
  C6. For an execution \<open>e\<close> that is in neither queue, \<open>incoming e\<close> followed by
  \<open>terminate e\<close> leaves the pending queue and the running queue as they were before
  \<open>incoming\<close>. \<open>incoming\<close> appends \<open>e\<close> to the pending queue only, \<open>terminate\<close> takes it
  out of the queue that holds it and deletes its ExecutionProgress entry; one
  termination thread is added to \<open>async_threads\<close>.
\<close>

theorem incoming_then_terminate:
  assumes "e \<notin> set (queue s)" and "e \<notin> set (queue_running s)"
  shows "queue (terminate (incoming s e) e) = queue s
       \<and> queue_running (terminate (incoming s e) e) = queue_running s
       \<and> queue (incoming s e) = queue s @ [e]
       \<and> queue_running (incoming s e) = queue_running s
       \<and> additional_exec_state (incoming s e) e = Some ExecutionProgress
       \<and> additional_exec_state (terminate (incoming s e) e) e = None
       \<and> async_threads (terminate (incoming s e) e) = async_threads s @ [e]"
  using assms
  by (simp add: incoming_def terminate_def trigger_def Let_def list_remove_append_new)

theorem incoming_then_terminate_witness:
  "3 \<notin> set (queue ((empty_scheduler ''FIFO'' (example_objects []))\<lparr>queue := [1], queue_running := [2]\<rparr>))
   \<and> 3 \<notin> set (queue_running ((empty_scheduler ''FIFO'' (example_objects []))\<lparr>queue := [1], queue_running := [2]\<rparr>))
   \<and> queue (incoming ((empty_scheduler ''FIFO'' (example_objects []))\<lparr>queue := [1], queue_running := [2]\<rparr>) 3) = [1, 3]
   \<and> queue (terminate (incoming ((empty_scheduler ''FIFO'' (example_objects []))\<lparr>queue := [1], queue_running := [2]\<rparr>) 3) 3) = [1]
   \<and> queue_running (terminate (incoming ((empty_scheduler ''FIFO'' (example_objects []))\<lparr>queue := [1], queue_running := [2]\<rparr>) 3) 3) = [2]"
  using incoming_then_terminate
    [of 3 "(empty_scheduler ''FIFO'' (example_objects []))\<lparr>queue := [1], queue_running := [2]\<rparr>"]
  by (simp add: empty_scheduler_def)

subsection \<open>Statistics\<close>

lemma stats_fields:
  "queue_length (stats s) = length (queue s)
   \<and> running_length (stats s) = length (queue_running s)
   \<and> termination_threads_count (stats s) = length (async_threads s)
   \<and> running_queue (stats s) = queue_running s
   \<and> stats_queue (stats s) =
       (if policy s = ''SIZE'' then sort_key (\<lambda>execution. exec_size (objects s execution)) (queue s)
        else queue s)"
  by (simp add: stats_def Let_def)

lemma stats_size_sorted:
  "policy s = ''SIZE'' \<Longrightarrow>
     sorted (map (\<lambda>execution. exec_size (objects s execution)) (stats_queue (stats s)))
     \<and> set (stats_queue (stats s)) = set (queue s)
     \<and> length (stats_queue (stats s)) = length (queue s)"
  by (simp add: stats_def Let_def)

text \<open>
  C9. The statistics report the lengths of the two queues, the number of termination
  threads and the ids of the running queue. The pending queue is reported sorted by
  size under SIZE only: under DYNSIZE, for a queue holding execution 1 of size 100
  before execution 2 of size 10, \<open>stats\<close> reports the ids in insertion order
  \<open>[1, 2]\<close>, whereas the order the scheduler uses for that policy (\<open>sort_queue\<close>) is
  \<open>[2, 1]\<close>.
\<close>

theorem stats_dynsize_insertion_order:
  "stats_queue (stats ((empty_scheduler ''DYNSIZE''
       (example_objects [(1, example_execution 100 []), (2, example_execution 10 [])]))
       \<lparr>queue := [1, 2]\<rparr>)) = [1, 2]
   \<and> queue (sort_queue ((empty_scheduler ''DYNSIZE''
       (example_objects [(1, example_execution 100 []), (2, example_execution 10 [])]))
       \<lparr>queue := [1, 2]\<rparr>)) = [2, 1]"
  by (simp add: stats_def sort_queue_def empty_scheduler_def example_objects_def
      example_execution_def)

subsection \<open>Dead-service detector\<close>

lemmas detector_eval =
  check_dead_services_def empty_scheduler_def example_objects_def example_execution_def
  example_service_def example_env_def elastic_body_def essential_body_def update_object_def
  update_service_def Let_def restarted_def set_cleaning_up_def terminate_def list_remove_def

text \<open>
  C5. Both sweeps of the dead-service detector iterate over \<open>queue_running\<close> while
  removing from it, so the execution that follows a removed one is not visited.

  With executions 1 and 2 running, each holding a dead elastic service, only
  execution 1 is rescheduled: \<open>terminate_service\<close> is called for its service 11 only,
  execution 2 stays in the running queue and its service 20 keeps the status die.

  With executions 1 and 2 running, each holding a dead essential service and
  execution 2 a dead elastic service as well, only execution 1 is terminated by the
  first sweep; execution 2 is then rescheduled by the second sweep, although its
  essential service died in the same round.
\<close>

theorem dead_service_sweeps_skip_next:
  "queue (check_dead_services (example_env ''ok'') two_dead_elastic) = [1]
   \<and> queue_running (check_dead_services (example_env ''ok'') two_dead_elastic) = [2]
   \<and> calls (check_dead_services (example_env ''ok'') two_dead_elastic)
       = [Terminate_service (example_service 11 False BACKEND_DIE_STATUS)]
   \<and> services (objects (check_dead_services (example_env ''ok'') two_dead_elastic) 2)
       = [example_service 20 False BACKEND_DIE_STATUS]
   \<and> queue (check_dead_services (example_env ''ok'') two_dead_essential) = [2]
   \<and> queue_running (check_dead_services (example_env ''ok'') two_dead_essential) = []
   \<and> async_threads (check_dead_services (example_env ''ok'') two_dead_essential) = [1]"
  by (simp add: two_dead_elastic_def two_dead_essential_def detector_eval)

subsection \<open>ExecutionProgress entries of queued executions\<close>

lemma incoming_progress:
  "\<forall>e \<in> set (queue s). additional_exec_state s e \<noteq> None \<Longrightarrow>
   \<forall>e \<in> set (queue (incoming s x)). additional_exec_state (incoming s x) e \<noteq> None"
  by (simp add: incoming_def trigger_def Let_def)

lemma recover_progress:
  "\<forall>e \<in> set (queue s). additional_exec_state s e \<noteq> None \<Longrightarrow>
   \<forall>e \<in> set (queue (recover env x s)). additional_exec_state (recover env x s) e \<noteq> None"
  by (simp add: recover_def)

lemma init_progress:
  assumes "init env pol objs running = Inr s"
  shows "\<forall>e \<in> set (queue s). additional_exec_state s e \<noteq> None"
proof -
  have "\<forall>e \<in> set (queue (fold (recover env) xs t)). additional_exec_state (fold (recover env) xs t) e \<noteq> None"
    if "\<forall>e \<in> set (queue t). additional_exec_state t e \<noteq> None" for xs t
    using that
  proof (induction xs arbitrary: t)
    case Nil
    then show ?case by simp
  next
    case (Cons x xs)
    from Cons.prems have "\<forall>e \<in> set (queue (recover env x t)). additional_exec_state (recover env x t) e \<noteq> None"
      by (rule recover_progress)
    then show ?case using Cons.IH by simp
  qed
  from this [of "empty_scheduler pol objs" running] assms show ?thesis
    by (auto simp add: init_def empty_scheduler_def split: if_splits)
qed

text \<open>
  C10. \<open>incoming\<close> and the construction-time recovery give every execution they queue
  an ExecutionProgress entry (\<open>incoming_progress\<close>, \<open>init_progress\<close>), but the requeue of
  the dead-service detector does not. An execution recovered at construction with all
  its services running sits in the running queue without an entry; once its elastic
  service dies the detector moves it to the pending queue, still without an entry, and
  both \<open>refresh_execution_sizes\<close> (under DYNSIZE) and \<open>requeue\<close> raise KeyError on it.
\<close>

theorem dead_elastic_requeue_without_progress:
  "init (example_env ''ok'') ''DYNSIZE'' recovered_objects [1] = Inr recovered_running
   \<and> queue recovered_running = [] \<and> queue_running recovered_running = [1]
   \<and> queue (check_dead_services (example_env ''ok'') recovered_then_died) = [1]
   \<and> additional_exec_state (check_dead_services (example_env ''ok'') recovered_then_died) 1 = None
   \<and> fst (refresh_execution_sizes 5 (check_dead_services (example_env ''ok'') recovered_then_died))
       = Some KeyError
   \<and> fst (requeue 5 (check_dead_services (example_env ''ok'') recovered_then_died) 1)
       = Some KeyError"
  by (simp add: init_def recovered_then_died_def recovered_running_def recovered_objects_def
      recover_def detector_eval refresh_execution_sizes_def requeue_def release_lock_def)

subsection \<open>Size refresh\<close>

lemma set_size_fields:
  "additional_exec_state (set_size s e v) = additional_exec_state s"
  "objects (set_size s e v) = (objects s)(e := (objects s e)\<lparr>exec_size := v\<rparr>)"
  "queue (set_size s e v) = queue s"
  by (simp_all add: set_size_def update_object_def)

lemma refresh_loop_sizes:
  assumes "distinct xs" and "\<forall>e \<in> set xs. additional_exec_state s e \<noteq> None"
  shows "refresh_loop now xs s =
           (None, s\<lparr>objects := (\<lambda>e. if e \<in> set xs
                                      then (objects s e)\<lparr>exec_size := refreshed_size now s e\<rparr>
                                      else objects s e)\<rparr>)"
  using assms
proof (induction xs arbitrary: s)
  case Nil
  then show ?case by simp
next
  case (Cons x xs)
  from Cons.prems obtain d where d: "additional_exec_state s x = Some d" by auto
  have nx: "x \<notin> set xs" using Cons.prems by auto
  have same: "refreshed_size now (set_size s x v) e = refreshed_size now s e"
    if "e \<in> set xs" for v e
    using that nx by (auto simp add: refreshed_size_def set_size_fields split: option.splits)
  show ?case
  proof (cases "last_time_scheduled d = 0")
    case True
    then have "refresh_loop now (x # xs) s = refresh_loop now xs s" using d by simp
    also have "\<dots> = (None, s\<lparr>objects := (\<lambda>e. if e \<in> set xs
                                      then (objects s e)\<lparr>exec_size := refreshed_size now s e\<rparr>
                                      else objects s e)\<rparr>)"
      using Cons.IH [of s] Cons.prems by simp
    also have "(\<lambda>e. if e \<in> set xs then (objects s e)\<lparr>exec_size := refreshed_size now s e\<rparr>
                    else objects s e)
        = (\<lambda>e. if e \<in> set (x # xs) then (objects s e)\<lparr>exec_size := refreshed_size now s e\<rparr>
                else objects s e)"
      using True d by (auto simp add: refreshed_size_def fun_eq_iff)
    finally show ?thesis .
  next
    case False
    define v where "v = refreshed_size now s x"
    have step: "refresh_loop now (x # xs) s = refresh_loop now xs (set_size s x v)"
      using False d by (simp add: v_def refreshed_size_def Let_def)
    have "refresh_loop now xs (set_size s x v) =
       (None, (set_size s x v)\<lparr>objects := (\<lambda>e. if e \<in> set xs
            then (objects (set_size s x v) e)\<lparr>exec_size := refreshed_size now (set_size s x v) e\<rparr>
            else objects (set_size s x v) e)\<rparr>)"
      using Cons.IH [of "set_size s x v"] Cons.prems by (simp add: set_size_fields)
    also have "(set_size s x v)\<lparr>objects := (\<lambda>e. if e \<in> set xs
            then (objects (set_size s x v) e)\<lparr>exec_size := refreshed_size now (set_size s x v) e\<rparr>
            else objects (set_size s x v) e)\<rparr>
       = s\<lparr>objects := (\<lambda>e. if e \<in> set (x # xs)
                                      then (objects s e)\<lparr>exec_size := refreshed_size now s e\<rparr>
                                      else objects s e)\<rparr>"
      using nx same by (auto simp add: set_size_def update_object_def fun_eq_iff v_def)
    finally show ?thesis using step by simp
  qed
qed

lemmas refresh_eval =
  refresh_execution_sizes_def aged_queue_def empty_scheduler_def example_objects_def
  example_execution_def ExecutionProgress_def set_size_def update_object_def Let_def

text \<open>
  C3, as stated, fails: the test \<^verbatim>\<open>size <= 0\<close> is made before the decay only. An
  execution of 100 MiB last scheduled one second ago leaves the refresh with the
  negative size 100 MiB - 256 MiB = -163577856, not with
  \<^verbatim>\<open>cores.min * memory.min\<close> (here 1073741824).
\<close>

theorem refresh_leaves_negative_size:
  "exec_size (objects (snd (refresh_execution_sizes 11 aged_queue)) 1) = - 163577856
   \<and> total_cores_min (objects aged_queue 1) * total_memory_min (objects aged_queue 1)
       = 1073741824"
  by (simp add: refresh_eval)

text \<open>
  C3, amended. For a pending queue without duplicates whose executions all have an
  ExecutionProgress entry, \<open>refresh_execution_sizes\<close> raises nothing; under DYNSIZE
  it gives every queued execution the size \<open>refreshed_size\<close> (unchanged when
  \<open>last_time_scheduled = 0\<close>; reset to \<^verbatim>\<open>cores.min * memory.min\<close> when the size was
  \<open>\<le> 0\<close> on entry, without decay; otherwise decreased by the elapsed seconds times
  256 MiB, a result that may be \<open>\<le> 0\<close> and is reset only by a later refresh) and
  changes nothing else; under FIFO and SIZE it changes nothing.
\<close>

theorem refresh_execution_sizes_effect:
  assumes "distinct (queue s)" and "\<forall>e \<in> set (queue s). additional_exec_state s e \<noteq> None"
  shows "refresh_execution_sizes now s =
           (None,
            if policy s = ''DYNSIZE''
            then s\<lparr>objects := (\<lambda>e. if e \<in> set (queue s)
                                     then (objects s e)\<lparr>exec_size := refreshed_size now s e\<rparr>
                                     else objects s e)\<rparr>
            else s)"
  using refresh_loop_sizes [OF assms] by (simp add: refresh_execution_sizes_def)

theorem refresh_execution_sizes_effect_witness:
  "distinct (queue aged_queue)
   \<and> list_all (\<lambda>e. additional_exec_state aged_queue e \<noteq> None) (queue aged_queue)
   \<and> policy aged_queue = ''DYNSIZE''
   \<and> fst (refresh_execution_sizes 11 aged_queue) = None
   \<and> map (\<lambda>e. exec_size (objects (snd (refresh_execution_sizes 11 aged_queue)) e)) [1, 2, 3, 4]
       = [- 163577856, 1073741824, 7, 0]"
proof -
  have d: "distinct (queue aged_queue)"
    by (simp add: aged_queue_def)
  have p: "\<forall>e \<in> set (queue aged_queue). additional_exec_state aged_queue e \<noteq> None"
    by (simp add: aged_queue_def)
  show ?thesis
    using d p refresh_execution_sizes_effect [OF d p, of 11]
    by (simp add: refreshed_size_def aged_queue_def empty_scheduler_def example_objects_def
        example_execution_def ExecutionProgress_def list_all_iff)
qed

subsection \<open>Core-limit rebalancer\<close>

lemma fold_allocations_other:
  "k \<notin> service_id ` set svs \<Longrightarrow>
   fold (\<lambda>sv m. m(service_id sv \<mapsto> cores_min sv)) svs m k = m k"
  by (induction svs arbitrary: m) auto

lemma fold_allocations_lookup:
  "distinct (map service_id svs) \<Longrightarrow> sv \<in> set svs \<Longrightarrow>
   fold (\<lambda>sv m. m(service_id sv \<mapsto> cores_min sv)) svs m (service_id sv) = Some (cores_min sv)"
proof (induction svs arbitrary: m)
  case Nil
  then show ?case by simp
next
  case (Cons a svs)
  show ?case
  proof (cases "sv = a")
    case True
    have "fold (\<lambda>sv m. m(service_id sv \<mapsto> cores_min sv)) svs
            (m(service_id a \<mapsto> cores_min a)) (service_id a)
          = (m(service_id a \<mapsto> cores_min a)) (service_id a)"
      using Cons.prems by (intro fold_allocations_other) simp
    with True show ?thesis by (simp only: fold_simps o_apply fun_upd_same)
  next
    case False
    with Cons show ?thesis by simp
  qed
qed


lemma issue_updates_all:
  "\<forall>sv \<in> set svs. m (service_id sv) = Some (cores_min sv) \<Longrightarrow>
   issue_updates m add svs =
     (None, map (\<lambda>sv. Update_service_resource_limits sv [(''cores'', cores_min sv + add)]) svs)"
  by (induction svs) auto

lemma adjust_node_spec:
  assumes "distinct (map service_id store)"
  shows "adjust_node store node = (None, spec_node_updates store node)"
proof -
  let ?svs = "select_services store (node_name node) BACKEND_START_STATUS"
  have sel: "?svs = started_on store node"
    by (simp add: select_services_def started_on_def)
  have "distinct (map service_id ?svs)"
    using assms by (simp add: select_services_def distinct_map_filter)
  then have look: "\<forall>sv \<in> set ?svs.
      fold (\<lambda>sv m. m(service_id sv \<mapsto> cores_min sv)) ?svs Map.empty (service_id sv) = Some (cores_min sv)"
    by (simp add: fold_allocations_lookup)
  show ?thesis
  proof (cases "?svs = []")
    case True
    then show ?thesis using sel by (simp add: adjust_node_def spec_node_updates_def)
  next
    case False
    define m where "m = fold (\<lambda>sv m. m(service_id sv \<mapsto> cores_min sv)) ?svs Map.empty"
    have "adjust_node store node
            = issue_updates m (spec_extra node (length ?svs)) ?svs"
      using False unfolding adjust_node_def Let_def m_def spec_extra_def by simp
    also have "\<dots> = (None, map (\<lambda>sv. Update_service_resource_limits sv
                          [(''cores'', cores_min sv + spec_extra node (length ?svs))]) ?svs)"
      using look unfolding m_def by (intro issue_updates_all)
    finally show ?thesis by (simp add: spec_node_updates_def sel)
  qed
qed

text \<open>
  C2. For a state store whose services have distinct ids, one cycle of the rebalancer
  raises nothing and issues, node after node, exactly the calls of the spec: none for
  a node without started services, and otherwise for each started service of the node
  one \<open>update_service_resource_limits\<close> whose only keyword argument is \<open>cores\<close>, equal
  to the service's \<^verbatim>\<open>cores.min\<close> plus \<open>(cores_total - cores_reserved) / count\<close> when
  \<open>cores_reserved < cores_total\<close> and plus 0 otherwise. No call carries a memory
  limit.
\<close>

theorem adjust_core_limits_calls:
  assumes "distinct (map service_id store)"
  shows "adjust_core_limits store nodes = (None, concat (map (spec_node_updates store) nodes))
       \<and> (\<forall>c \<in> set (snd (adjust_core_limits store nodes)).
             \<exists>sv x. c = Update_service_resource_limits sv [(''cores'', x)])"
proof -
  have eq: "adjust_core_limits store nodes = (None, concat (map (spec_node_updates store) nodes))"
    by (induction nodes) (simp_all add: adjust_node_spec [OF assms])
  then show ?thesis by (auto simp add: spec_node_updates_def)
qed

theorem adjust_core_limits_calls_witness:
  "distinct (map service_id example_store)
   \<and> adjust_core_limits example_store [example_node ''N0'' 8 0, example_node ''N1'' 8 4]
       = (None,
          [Update_service_resource_limits (example_service 1 True BACKEND_START_STATUS) [(''cores'', 2)],
           Update_service_resource_limits (example_service 2 False BACKEND_START_STATUS) [(''cores'', 2)],
           Update_service_resource_limits (example_service 4 False BACKEND_START_STATUS) [(''cores'', 2)],
           Update_service_resource_limits (example_service 5 True BACKEND_START_STATUS) [(''cores'', 2)]])"
proof -
  have d: "distinct (map service_id example_store)"
    by (simp add: example_store_def example_service_def)
  show ?thesis
    using d adjust_core_limits_calls [OF d, of "[example_node ''N0'' 8 0, example_node ''N1'' 8 4]"]
    by (simp add: spec_node_updates_def spec_extra_def started_on_def example_store_def
        example_service_def example_node_def)
qed




subsection \<open>Placement simulation\<close>







subsection \<open>The simulated platform\<close>

lemma first_fit_bound:
  "first_fit nodes sv = Some i \<Longrightarrow> i < length nodes \<and> service_fits (nodes ! i) sv"
proof (induction nodes arbitrary: i)
  case Nil
  then show ?case by simp
next
  case (Cons node nodes)
  then show ?case by (auto split: if_splits)
qed

lemma reserve_reserve: "reserve a (reserve b node) = reserve (a + b) node"
  by (simp add: reserve_def)

lemma reserve_zero: "reserve 0 node = node"
  by (simp add: reserve_def)

lemma unplace_place:
  "i < length (sp_nodes p) \<Longrightarrow> unplace (place p i sv) i sv = p"
  by (simp add: unplace_def place_def reserve_reserve reserve_zero)

lemma rollback_Cons: "rollback ((i, sv) # placed) p = rollback placed (unplace p i sv)"
  by (simp add: rollback_def)

lemma allocate_loop_rollback:
  "allocate_loop svs placed p = (False, pl, q) \<Longrightarrow> rollback placed p = p0 \<Longrightarrow> q = p0"
proof (induction svs arbitrary: placed p)
  case Nil
  then show ?case by simp
next
  case (Cons sv rest)
  show ?case
  proof (cases "first_fit (sp_nodes p) sv")
    case None
    with Cons.prems show ?thesis by simp
  next
    case (Some i)
    then have "i < length (sp_nodes p)" by (simp add: first_fit_bound)
    then have "rollback ((i, sv) # placed) (place p i sv) = p0"
      using Cons.prems(2) by (simp add: rollback_Cons unplace_place)
    moreover have "allocate_loop rest ((i, sv) # placed) (place p i sv) = (False, pl, q)"
      using Cons.prems(1) Some by simp
    ultimately show ?thesis by (rule Cons.IH [rotated])
  qed
qed

lemma allocate_loop_success:
  "allocate_loop svs placed p = (True, pl, q) \<Longrightarrow>
   \<exists>new. pl = new @ placed \<and> map snd new = rev svs
     \<and> list_all (\<lambda>i. i < length (sp_nodes p)) (map fst new)
     \<and> sp_placements q = map (\<lambda>(i, sv). (service_id sv, i)) new @ sp_placements p
     \<and> length (sp_nodes q) = length (sp_nodes p)
     \<and> (\<forall>i < length (sp_nodes p). sp_nodes q ! i = reserve (placed_on i new) (sp_nodes p ! i))"
proof (induction svs arbitrary: placed p)
  case Nil
  then show ?case by (simp add: placed_on_def reserve_zero)
next
  case (Cons sv rest)
  from Cons.prems obtain i where fit: "first_fit (sp_nodes p) sv = Some i"
    by (cases "first_fit (sp_nodes p) sv") auto
  then have i: "i < length (sp_nodes p)" by (simp add: first_fit_bound)
  let ?p = "place p i sv"
  have run: "allocate_loop rest ((i, sv) # placed) ?p = (True, pl, q)"
    using Cons.prems fit by simp
  from Cons.IH [OF run] obtain new where
    new: "pl = new @ (i, sv) # placed" "map snd new = rev rest"
      "list_all (\<lambda>i. i < length (sp_nodes ?p)) (map fst new)"
      "sp_placements q = map (\<lambda>(i, sv). (service_id sv, i)) new @ sp_placements ?p"
      "length (sp_nodes q) = length (sp_nodes ?p)"
      "\<forall>k < length (sp_nodes ?p). sp_nodes q ! k = reserve (placed_on k new) (sp_nodes ?p ! k)"
    by blast
  have len: "length (sp_nodes ?p) = length (sp_nodes p)" by (simp add: place_def)
  have nodes: "sp_nodes q ! k = reserve (placed_on k (new @ [(i, sv)])) (sp_nodes p ! k)"
    if "k < length (sp_nodes p)" for k
  proof -
    have "sp_nodes q ! k = reserve (placed_on k new) (sp_nodes ?p ! k)"
      using new(6) that len by simp
    also have "sp_nodes ?p ! k = (if k = i then reserve (memory_min sv) (sp_nodes p ! k) else sp_nodes p ! k)"
      using that by (simp add: place_def nth_list_update)
    finally show ?thesis
      by (auto simp add: placed_on_def reserve_reserve)
  qed
  show ?case
  proof (intro exI conjI)
    show "pl = (new @ [(i, sv)]) @ placed" using new(1) by simp
    show "map snd (new @ [(i, sv)]) = rev (sv # rest)" using new(2) by simp
    show "list_all (\<lambda>i. i < length (sp_nodes p)) (map fst (new @ [(i, sv)]))"
      using new(3) i len by simp
    show "sp_placements q = map (\<lambda>(i, sv). (service_id sv, i)) (new @ [(i, sv)]) @ sp_placements p"
      using new(4) by (simp add: place_def)
    show "length (sp_nodes q) = length (sp_nodes p)" using new(5) len by simp
    show "\<forall>k < length (sp_nodes p). sp_nodes q ! k = reserve (placed_on k (new @ [(i, sv)])) (sp_nodes p ! k)"
      using nodes by blast
  qed
qed

lemma sum_list_int_update:
  "k < length xs \<Longrightarrow> sum_list (xs[k := x]) = sum_list xs + x - (xs ! k :: int)"
proof (induction xs arbitrary: k)
  case Nil
  then show ?case by simp
next
  case (Cons a xs)
  then show ?case by (cases k) simp_all
qed

lemma free_place:
  assumes "i < length (sp_nodes p)"
  shows "aggregated_free_memory (place p i sv) = aggregated_free_memory p - memory_min sv"
proof -
  let ?f = "\<lambda>node. memory_total node - memory_reserved node"
  have "map ?f ((sp_nodes p)[i := reserve (memory_min sv) (sp_nodes p ! i)])
          = (map ?f (sp_nodes p))[i := ?f (sp_nodes p ! i) - memory_min sv]"
    by (simp add: map_update reserve_def algebra_simps)
  moreover have "sum_list ((map ?f (sp_nodes p))[i := ?f (sp_nodes p ! i) - memory_min sv])
        = sum_list (map ?f (sp_nodes p)) + (?f (sp_nodes p ! i) - memory_min sv) - (map ?f (sp_nodes p)) ! i"
    using assms by (intro sum_list_int_update) simp
  ultimately show ?thesis using assms by (simp add: aggregated_free_memory_def place_def)
qed

lemma allocate_loop_free:
  "allocate_loop svs placed p = (True, pl, q) \<Longrightarrow>
   aggregated_free_memory q = aggregated_free_memory p - sum_list (map memory_min svs)"
proof (induction svs arbitrary: placed p)
  case Nil
  then show ?case by simp
next
  case (Cons sv rest)
  from Cons.prems obtain i where fit: "first_fit (sp_nodes p) sv = Some i"
    by (cases "first_fit (sp_nodes p) sv") auto
  then have i: "i < length (sp_nodes p)" by (simp add: first_fit_bound)
  have run: "allocate_loop rest ((i, sv) # placed) (place p i sv) = (True, pl, q)"
    using Cons.prems fit by simp
  from Cons.IH [OF run] free_place [OF i, of sv] show ?case by simp
qed

text \<open>
  C8. \<open>allocate_essential\<close> is all-or-nothing. When it returns false the platform is
  unchanged, and so is \<open>aggregated_free_memory\<close>. When it returns true, the services
  it placed are exactly the essential services of the execution, each on a node of
  the platform; each has a recorded placement; every node's reserved memory has grown
  by the \<^verbatim>\<open>memory.min\<close> of the services placed on it; and the aggregated free memory
  has dropped by the sum of their \<^verbatim>\<open>memory.min\<close>.
\<close>

theorem allocate_essential_all_or_nothing:
  "(if fst (allocate_essential p e)
    then map snd (essential_placements p e) = rev (filter essential (services e))
       \<and> list_all (\<lambda>i. i < length (sp_nodes p)) (map fst (essential_placements p e))
       \<and> sp_placements (snd (allocate_essential p e))
           = map (\<lambda>(i, sv). (service_id sv, i)) (essential_placements p e) @ sp_placements p
       \<and> length (sp_nodes (snd (allocate_essential p e))) = length (sp_nodes p)
       \<and> (\<forall>i < length (sp_nodes p).
             sp_nodes (snd (allocate_essential p e)) ! i
               = reserve (placed_on i (essential_placements p e)) (sp_nodes p ! i))
       \<and> aggregated_free_memory (snd (allocate_essential p e))
           = aggregated_free_memory p - sum_list (map memory_min (filter essential (services e)))
    else snd (allocate_essential p e) = p
       \<and> aggregated_free_memory (snd (allocate_essential p e)) = aggregated_free_memory p)"
proof -
  obtain ok pl q where run: "allocate_loop (filter essential (services e)) [] p = (ok, pl, q)"
    by (cases "allocate_loop (filter essential (services e)) [] p") auto
  then have res: "allocate_essential p e = (ok, q)" "essential_placements p e = pl"
    by (simp_all add: allocate_essential_def essential_placements_def)
  show ?thesis
  proof (cases ok)
    case True
    with run have run': "allocate_loop (filter essential (services e)) [] p = (True, pl, q)"
      by simp
    from allocate_loop_success [OF run'] allocate_loop_free [OF run']
    show ?thesis using res True by auto
  next
    case False
    have "rollback [] p = p" by (simp add: rollback_def)
    with run False have "q = p" by (auto dest: allocate_loop_rollback)
    then show ?thesis using res False by simp
  qed
qed

theorem allocate_essential_all_or_nothing_witness:
  "fst (allocate_essential two_nodes fitting_execution)
   \<and> sp_placements (snd (allocate_essential two_nodes fitting_execution))
       = [(6, 1), (5, 0), (4, 0), (2, 0), (1, 0)]
   \<and> map memory_reserved (sp_nodes (snd (allocate_essential two_nodes fitting_execution))) = [8, 2]
   \<and> aggregated_free_memory two_nodes = 16
   \<and> aggregated_free_memory (snd (allocate_essential two_nodes fitting_execution)) = 6
   \<and> \<not> fst (allocate_essential two_nodes oversized_execution)
   \<and> snd (allocate_essential two_nodes oversized_execution) = two_nodes"
  using allocate_essential_all_or_nothing [of two_nodes fitting_execution]
    allocate_essential_all_or_nothing [of two_nodes oversized_execution]
  by (simp add: allocate_essential_def essential_placements_def two_nodes_def
      fitting_execution_def oversized_execution_def SimulatedPlatform_def example_node_def
      example_execution_def example_service_def service_fits_def place_def unplace_def
      reserve_def rollback_def aggregated_free_memory_def placed_on_def)

subsection \<open>Committing the simulation\<close>

text \<open>Effect of the building blocks on an execution x other than the job they process.\<close>

lemma requeue_frame:
  assumes "requeue now s j = (err, s')"
  shows "queue s' = queue s" and "queue_running s' = queue_running s" and "calls s' = calls s"
    and "locks s' = locks s - {j}"
    and "x \<noteq> j \<Longrightarrow> additional_exec_state s' x = additional_exec_state s x"
    and "objects s' = objects s"
  using assms by (auto simp add: requeue_def release_lock_def Let_def split: option.splits)

lemma discard_fatal_frame:
  assumes "discard_fatal j (cands, s) = (err, cands', s')"
  shows "calls s' = calls s" and "queue_running s' = queue_running s"
    and "additional_exec_state s' = additional_exec_state s"
    and "x \<noteq> j \<Longrightarrow> x \<in> set cands' \<longleftrightarrow> x \<in> set cands"
    and "x \<noteq> j \<Longrightarrow> x \<in> set (queue s') \<longleftrightarrow> x \<in> set (queue s)"
    and "x \<noteq> j \<Longrightarrow> x \<in> locks s' \<longleftrightarrow> x \<in> locks s"
    and "distinct cands \<Longrightarrow> distinct cands'" and "distinct (queue s) \<Longrightarrow> distinct (queue s')"
  using assms
  by (auto simp add: discard_fatal_def list_remove_def release_lock_def
      split: if_splits)

lemma launch_frame:
  assumes "launch env pl j (cands, s) = (err, cands', s')"
  shows "calls s' = calls s @ [Start_elastic j pl]"
    and "additional_exec_state s' = additional_exec_state s"
    and "x \<noteq> j \<Longrightarrow> count_list (queue_running s') x = count_list (queue_running s) x"
    and "x \<noteq> j \<Longrightarrow> x \<in> set cands' \<longleftrightarrow> x \<in> set cands"
    and "x \<noteq> j \<Longrightarrow> x \<in> set (queue s') \<longleftrightarrow> x \<in> set (queue s)"
    and "x \<noteq> j \<Longrightarrow> x \<in> locks s' \<longleftrightarrow> x \<in> locks s"
    and "distinct cands \<Longrightarrow> distinct cands'" and "distinct (queue s) \<Longrightarrow> distinct (queue s')"
  using assms
  by (auto simp add: launch_def list_remove_def release_lock_def update_object_def Let_def
      split: if_splits)

lemmas commit_unfold =
  commit_job_def launch_def discard_fatal_def requeue_def list_remove_def release_lock_def
  update_object_def set_running_def Let_def

lemma commit_job_frame:
  assumes "commit_job env pl now j (cands, s) = (err, cands', s')"
  shows "x \<noteq> j \<Longrightarrow> additional_exec_state s' x = additional_exec_state s x"
    and "x \<noteq> j \<Longrightarrow> count_list (queue_running s') x = count_list (queue_running s) x"
    and "x \<noteq> j \<Longrightarrow> x \<in> set cands' \<longleftrightarrow> x \<in> set cands"
    and "x \<noteq> j \<Longrightarrow> x \<in> set (queue s') \<longleftrightarrow> x \<in> set (queue s)"
    and "x \<noteq> j \<Longrightarrow> x \<in> locks s' \<longleftrightarrow> x \<in> locks s"
    and "distinct cands \<Longrightarrow> distinct cands'" and "distinct (queue s) \<Longrightarrow> distinct (queue s')"
  using assms
  by (auto simp add: commit_unfold split: if_splits option.splits prod.splits)

lemma commit_job_calls:
  assumes "commit_job env pl now j (cands, s) = (err, cands', s')"
  shows "\<exists>new. calls s' = calls s @ new
           \<and> set new \<subseteq> insert (Start_elastic j pl) (range (Start_essential j pl))"
  using assms
  by (auto simp add: commit_unfold split: if_splits option.splits prod.splits)

lemma commit_job_fatal:
  assumes "commit_job env pl now j (cands, s) = (err, cands', s')"
    and "Start_essential j pl ''fatal'' \<in> set (drop (length (calls s)) (calls s'))"
    and "j \<in> set cands" and "j \<in> set (queue s)" and "distinct cands" and "distinct (queue s)"
  shows "err = None" and "j \<notin> set cands'" and "j \<notin> set (queue s')" and "j \<notin> locks s'"
    and "additional_exec_state s' = additional_exec_state s"
    and "queue_running s' = queue_running s"
    and "Start_elastic j pl \<notin> set (drop (length (calls s)) (calls s'))"
  using assms
  by (auto simp add: commit_unfold split: if_splits option.splits prod.splits)

lemma commit_loop_calls:
  assumes "commit_loop env pl now jobs (cands, s) = (err, cands', s')"
  shows "\<exists>new. calls s' = calls s @ new
           \<and> set new \<subseteq> (\<Union>j \<in> set jobs. insert (Start_elastic j pl) (range (Start_essential j pl)))"
  using assms
proof (induction jobs arbitrary: cands s)
  case Nil
  then show ?case by simp
next
  case (Cons j rest)
  obtain e1 c1 s1 where step: "commit_job env pl now j (cands, s) = (e1, c1, s1)"
    by (cases "commit_job env pl now j (cands, s)") auto
  from commit_job_calls [OF step] obtain new1 where
    new1: "calls s1 = calls s @ new1"
      "set new1 \<subseteq> insert (Start_elastic j pl) (range (Start_essential j pl))"
    by blast
  show ?case
  proof (cases e1)
    case (Some a)
    with Cons.prems step have "s' = s1" by simp
    with new1 show ?thesis by auto
  next
    case None
    with Cons.prems step have "commit_loop env pl now rest (c1, s1) = (err, cands', s')"
      by simp
    from Cons.IH [OF this] obtain new2 where
      "calls s' = calls s1 @ new2"
      "set new2 \<subseteq> (\<Union>j \<in> set rest. insert (Start_elastic j pl) (range (Start_essential j pl)))"
      by blast
    with new1 show ?thesis by auto
  qed
qed

lemma commit_loop_frame:
  assumes "commit_loop env pl now jobs (cands, s) = (err, cands', s')" and "x \<notin> set jobs"
  shows "additional_exec_state s' x = additional_exec_state s x
       \<and> count_list (queue_running s') x = count_list (queue_running s) x
       \<and> (x \<in> set cands' \<longleftrightarrow> x \<in> set cands)
       \<and> (x \<in> set (queue s') \<longleftrightarrow> x \<in> set (queue s))
       \<and> (x \<in> locks s' \<longleftrightarrow> x \<in> locks s)"
  using assms
proof (induction jobs arbitrary: cands s)
  case Nil
  then show ?case by simp
next
  case (Cons j rest)
  obtain e1 c1 s1 where step: "commit_job env pl now j (cands, s) = (e1, c1, s1)"
    by (cases "commit_job env pl now j (cands, s)") auto
  have xj: "x \<noteq> j" using Cons.prems by simp
  note fr = commit_job_frame(1-5) [OF step xj]
  show ?case
  proof (cases e1)
    case (Some a)
    with Cons.prems step have "s' = s1" "cands' = c1" by simp_all
    with fr show ?thesis by simp
  next
    case None
    with Cons.prems step have "commit_loop env pl now rest (c1, s1) = (err, cands', s')"
      by simp
    from Cons.IH [OF this] Cons.prems fr show ?thesis by simp
  qed
qed

lemma commit_loop_fatal:
  assumes "commit_loop env pl now jobs (cands, s) = (err, cands', s')"
    and "Start_essential job pl ''fatal'' \<in> set (drop (length (calls s)) (calls s'))"
    and "distinct jobs" and "distinct cands" and "distinct (queue s)"
    and "job \<in> set cands" and "job \<in> set (queue s)"
  shows "job \<notin> set cands' \<and> job \<notin> set (queue s') \<and> job \<notin> locks s'
       \<and> additional_exec_state s' job = additional_exec_state s job
       \<and> count_list (queue_running s') job = count_list (queue_running s) job
       \<and> Start_elastic job pl \<notin> set (drop (length (calls s)) (calls s'))"
  using assms
proof (induction jobs arbitrary: cands s)
  case Nil
  then show ?case by simp
next
  case (Cons j rest)
  obtain e1 c1 s1 where step: "commit_job env pl now j (cands, s) = (e1, c1, s1)"
    by (cases "commit_job env pl now j (cands, s)") auto
  from commit_job_calls [OF step] obtain new1 where
    new1: "calls s1 = calls s @ new1"
      "set new1 \<subseteq> insert (Start_elastic j pl) (range (Start_essential j pl))"
    by blast
  have rest_loop: "e1 = None \<Longrightarrow> commit_loop env pl now rest (c1, s1) = (err, cands', s')"
    using Cons.prems(1) step by simp
  have stop: "e1 \<noteq> None \<Longrightarrow> s' = s1 \<and> cands' = c1"
    using Cons.prems(1) step by auto
  show ?case
  proof (cases "j = job")
    case True
    have notin: "job \<notin> set rest" using Cons.prems(3) True by simp
    have in1: "Start_essential job pl ''fatal'' \<in> set new1"
    proof (cases e1)
      case None
      from commit_loop_calls [OF rest_loop [OF None]] obtain new2 where
        new2: "calls s' = calls s1 @ new2"
          "set new2 \<subseteq> (\<Union>j \<in> set rest. insert (Start_elastic j pl) (range (Start_essential j pl)))"
        by blast
      from new2(2) notin have "Start_essential job pl ''fatal'' \<notin> set new2" by auto
      with Cons.prems(2) new1(1) new2(1) show ?thesis by simp
    next
      case (Some a)
      with stop Cons.prems(2) new1(1) show ?thesis by simp
    qed
    then have in1': "Start_essential j pl ''fatal'' \<in> set (drop (length (calls s)) (calls s1))"
      using new1(1) True by simp
    note f = commit_job_fatal [OF step in1']
    have pre: "j \<in> set cands" "j \<in> set (queue s)" "distinct cands" "distinct (queue s)"
      using Cons.prems True by simp_all
    have e1: "e1 = None" by (rule f(1) [OF pre])
    have at1: "job \<notin> set c1" "job \<notin> set (queue s1)" "job \<notin> locks s1"
      "additional_exec_state s1 = additional_exec_state s" "queue_running s1 = queue_running s"
      "Start_elastic job pl \<notin> set new1"
      using f(2-7) [OF pre] True new1(1) by simp_all
    from commit_loop_calls [OF rest_loop [OF e1]] obtain new2 where
      new2: "calls s' = calls s1 @ new2"
        "set new2 \<subseteq> (\<Union>j \<in> set rest. insert (Start_elastic j pl) (range (Start_essential j pl)))"
      by blast
    from new2(2) notin have "Start_elastic job pl \<notin> set new2" by auto
    with at1(6) new1(1) new2(1)
    have "Start_elastic job pl \<notin> set (drop (length (calls s)) (calls s'))" by simp
    with commit_loop_frame [OF rest_loop [OF e1] notin] at1 show ?thesis by simp
  next
    case False
    then have xj: "job \<noteq> j" by simp
    note fr = commit_job_frame [OF step]
    from new1(2) False have no1: "Start_essential job pl ''fatal'' \<notin> set new1"
      "Start_elastic job pl \<notin> set new1" by auto
    have e1: "e1 = None"
    proof (rule ccontr)
      assume "e1 \<noteq> None"
      with stop Cons.prems(2) new1(1) no1 show False by simp
    qed
    have calls2: "drop (length (calls s)) (calls s') = new1 @ drop (length (calls s1)) (calls s')"
    proof -
      from commit_loop_calls [OF rest_loop [OF e1]] obtain new2 where
        "calls s' = calls s1 @ new2" by blast
      with new1(1) show ?thesis by simp
    qed
    with Cons.prems(2) no1
    have in2: "Start_essential job pl ''fatal'' \<in> set (drop (length (calls s1)) (calls s'))"
      by simp
    have "job \<notin> set cands' \<and> job \<notin> set (queue s') \<and> job \<notin> locks s'
       \<and> additional_exec_state s' job = additional_exec_state s1 job
       \<and> count_list (queue_running s') job = count_list (queue_running s1) job
       \<and> Start_elastic job pl \<notin> set (drop (length (calls s1)) (calls s'))"
    proof (rule Cons.IH [OF rest_loop [OF e1] in2])
      show "distinct rest" using Cons.prems(3) by simp
      show "distinct c1" using fr(6) Cons.prems(4) by simp
      show "distinct (queue s1)" using fr(7) Cons.prems(5) by simp
      show "job \<in> set c1" using fr(3) [OF xj] Cons.prems(6) by simp
      show "job \<in> set (queue s1)" using fr(4) [OF xj] Cons.prems(7) by simp
    qed
    with fr(1) [OF xj] fr(2) [OF xj] calls2 no1 show ?thesis by simp
  qed
qed

lemma requeue_pass_fields:
  assumes "requeue_pass now xs s = (err, s')"
  shows "queue s' = queue s \<and> queue_running s' = queue_running s \<and> calls s' = calls s
       \<and> locks s' \<subseteq> locks s"
  using assms
proof (induction xs arbitrary: s)
  case Nil
  then show ?case by simp
next
  case (Cons j rest)
  obtain e1 s1 where step: "requeue now s j = (e1, s1)"
    by (cases "requeue now s j") auto
  note fr = requeue_frame(1-4) [OF step]
  show ?case
  proof (cases e1)
    case (Some a)
    with Cons.prems step have "s' = s1" by simp
    with fr show ?thesis by auto
  next
    case None
    with Cons.prems step have "requeue_pass now rest s1 = (err, s')" by simp
    from Cons.IH [OF this] fr show ?thesis by auto
  qed
qed

lemma requeue_pass_other:
  assumes "requeue_pass now xs s = (err, s')" and "x \<notin> set xs"
  shows "additional_exec_state s' x = additional_exec_state s x"
  using assms
proof (induction xs arbitrary: s)
  case Nil
  then show ?case by simp
next
  case (Cons j rest)
  obtain e1 s1 where step: "requeue now s j = (e1, s1)"
    by (cases "requeue now s j") auto
  have xj: "x \<noteq> j" using Cons.prems by simp
  note fr = requeue_frame(5) [OF step xj]
  show ?case
  proof (cases e1)
    case (Some a)
    with Cons.prems step have "s' = s1" by simp
    with fr show ?thesis by simp
  next
    case None
    with Cons.prems step have "requeue_pass now rest s1 = (err, s')" by simp
    from Cons.IH [OF this] Cons.prems fr show ?thesis by simp
  qed
qed

lemma commit_phase_fatal:
  assumes "distinct jobs_to_launch" and "distinct cands" and "distinct (queue s)"
    and "job \<in> set cands" and "job \<in> set (queue s)"
    and "Start_essential job placements ''fatal''
           \<in> set (round_calls s (snd (commit_phase env placements now jobs_to_launch (cands, s))))"
  shows "job \<notin> set (fst (snd (commit_loop env placements now jobs_to_launch (cands, s))))
       \<and> job \<notin> set (queue (snd (commit_phase env placements now jobs_to_launch (cands, s))))
       \<and> job \<notin> locks (snd (commit_phase env placements now jobs_to_launch (cands, s)))
       \<and> additional_exec_state (snd (commit_phase env placements now jobs_to_launch (cands, s))) job
           = additional_exec_state s job
       \<and> count_list (queue_running (snd (commit_phase env placements now jobs_to_launch (cands, s)))) job
           = count_list (queue_running s) job
       \<and> Start_elastic job placements
           \<notin> set (round_calls s (snd (commit_phase env placements now jobs_to_launch (cands, s))))"
proof -
  obtain err cands' s1 where
    loop: "commit_loop env placements now jobs_to_launch (cands, s) = (err, cands', s1)"
    by (cases "commit_loop env placements now jobs_to_launch (cands, s)") auto
  let ?s' = "snd (commit_phase env placements now jobs_to_launch (cands, s))"
  have same: "calls ?s' = calls s1"
  proof (cases err)
    case None
    obtain e2 s2 where
      pass: "requeue_pass now cands' (s1\<lparr>core_limit_recalc_trigger := True\<rparr>) = (e2, s2)"
      by (cases "requeue_pass now cands' (s1\<lparr>core_limit_recalc_trigger := True\<rparr>)") auto
    from requeue_pass_fields [OF pass] show ?thesis
      using loop None pass by (simp add: commit_phase_def)
  next
    case (Some a)
    then show ?thesis using loop by (simp add: commit_phase_def)
  qed
  with assms(6) have fatal: "Start_essential job placements ''fatal''
      \<in> set (drop (length (calls s)) (calls s1))"
    by (simp add: round_calls_def)
  note d = commit_loop_fatal [OF loop fatal assms(1-5)]
  show ?thesis
  proof (cases err)
    case None
    obtain e2 s2 where
      pass: "requeue_pass now cands' (s1\<lparr>core_limit_recalc_trigger := True\<rparr>) = (e2, s2)"
      by (cases "requeue_pass now cands' (s1\<lparr>core_limit_recalc_trigger := True\<rparr>)") auto
    have s': "?s' = s2" using loop None pass by (simp add: commit_phase_def)
    from d have "job \<notin> set cands'" by simp
    from requeue_pass_fields [OF pass] requeue_pass_other [OF pass this] d show ?thesis
      using loop s' by (auto simp add: round_calls_def)
  next
    case (Some a)
    then have "?s' = s1" using loop by (simp add: commit_phase_def)
    with d loop show ?thesis by (simp add: round_calls_def)
  qed
qed

text \<open>
  C4. Let the candidates and the jobs to launch be free of duplicates, and let \<open>job\<close>
  be a candidate of a duplicate-free pending queue. If \<open>start_essential\<close> returns
  "fatal" for \<open>job\<close> during the commit of a round, then at the end of the round \<open>job\<close>
  is no longer in the candidate list (so the end-of-round requeue pass does not visit
  it, and its ExecutionProgress entry is as before), it is no longer in the pending
  queue, its termination lock is released, it has not been appended to the running
  queue, and \<open>start_elastic\<close> has not been called for it in the round.
\<close>

theorem fatal_job_discarded:
  assumes "distinct jobs_to_launch" and "distinct cands" and "distinct (queue s)"
    and "job \<in> set cands" and "job \<in> set (queue s)"
    and "Start_essential job placements ''fatal''
           \<in> set (round_calls s (snd (commit_phase env placements now jobs_to_launch (cands, s))))"
  shows "job \<notin> set (fst (snd (commit_loop env placements now jobs_to_launch (cands, s))))
       \<and> job \<notin> set (queue (snd (commit_phase env placements now jobs_to_launch (cands, s))))
       \<and> job \<notin> locks (snd (commit_phase env placements now jobs_to_launch (cands, s)))
       \<and> additional_exec_state (snd (commit_phase env placements now jobs_to_launch (cands, s))) job
           = additional_exec_state s job
       \<and> count_list (queue_running (snd (commit_phase env placements now jobs_to_launch (cands, s)))) job
           = count_list (queue_running s) job
       \<and> Start_elastic job placements
           \<notin> set (round_calls s (snd (commit_phase env placements now jobs_to_launch (cands, s))))"
  using assms by (rule commit_phase_fatal)

theorem fatal_job_discarded_witness:
  "distinct [1, 2 :: nat] \<and> distinct (queue popped)
   \<and> 1 \<in> set [1, 2 :: nat] \<and> 1 \<in> set (queue popped)
   \<and> round_calls popped (snd (commit_phase (example_env ''fatal'') [] 7 [1, 2] ([1, 2], popped)))
       = [Start_essential 1 [] ''fatal'', Start_elastic 2 []]
   \<and> fst (snd (commit_loop (example_env ''fatal'') [] 7 [1, 2] ([1, 2], popped))) = [2]
   \<and> queue (snd (commit_phase (example_env ''fatal'') [] 7 [1, 2] ([1, 2], popped))) = [2]
   \<and> queue_running (snd (commit_phase (example_env ''fatal'') [] 7 [1, 2] ([1, 2], popped))) = []
   \<and> locks (snd (commit_phase (example_env ''fatal'') [] 7 [1, 2] ([1, 2], popped))) = {}
   \<and> additional_exec_state (snd (commit_phase (example_env ''fatal'') [] 7 [1, 2] ([1, 2], popped))) 1
       = Some ExecutionProgress"
proof -
  have c: "round_calls popped (snd (commit_phase (example_env ''fatal'') [] 7 [1, 2] ([1, 2], popped)))
       = [Start_essential 1 [] ''fatal'', Start_elastic 2 []]"
    by code_simp
  have h: "distinct [1, 2 :: nat]" "distinct (queue popped)" "1 \<in> set [1, 2 :: nat]"
    "1 \<in> set (queue popped)"
    by (simp_all add: popped_def)
  have f: "Start_essential 1 [] ''fatal''
      \<in> set (round_calls popped (snd (commit_phase (example_env ''fatal'') [] 7 [1, 2] ([1, 2], popped))))"
    unfolding c by simp
  have rest: "fst (snd (commit_loop (example_env ''fatal'') [] 7 [1, 2] ([1, 2], popped))) = [2]
   \<and> queue (snd (commit_phase (example_env ''fatal'') [] 7 [1, 2] ([1, 2], popped))) = [2]
   \<and> queue_running (snd (commit_phase (example_env ''fatal'') [] 7 [1, 2] ([1, 2], popped))) = []
   \<and> locks (snd (commit_phase (example_env ''fatal'') [] 7 [1, 2] ([1, 2], popped))) = {}"
    by code_simp
  from fatal_job_discarded [OF h(1) h(1) h(2) h(3) h(4) f] h c rest show ?thesis
    by (simp add: popped_def ExecutionProgress_def)
qed


subsection \<open>The hypotheses of the commit within a whole pass\<close>

text \<open>The candidates returned by \<open>pop_all\<close> are free of duplicates (a lock is acquired
  once) and come from the pending queue; the candidate loop launches a duplicate-free
  selection of them. So within \<open>inner_pass\<close> the only hypothesis left for the fate of
  a job with a fatal start is that the pending queue has no duplicates.\<close>

lemma pop_all_loop_candidates:
  assumes "pop_all_loop xs s out = (cands, s')" and "distinct out" and "set out \<subseteq> locks s"
  shows "distinct cands \<and> set cands \<subseteq> set out \<union> set xs \<and> set cands \<subseteq> locks s'
       \<and> queue s' = queue s \<and> queue_running s' = queue_running s \<and> calls s' = calls s
       \<and> additional_exec_state s' = additional_exec_state s \<and> objects s' = objects s"
  using assms
proof (induction xs arbitrary: s out)
  case Nil
  then show ?case by auto
next
  case (Cons x xs)
  show ?case
  proof (cases "x \<notin> locks s \<and> status (objects s x) \<noteq> TERMINATED_STATUS")
    case True
    then have run: "pop_all_loop xs (s\<lparr>locks := insert x (locks s)\<rparr>) (out @ [x]) = (cands, s')"
      using Cons.prems(1) by (simp add: Let_def)
    have "x \<notin> set out" using True Cons.prems(3) by auto
    then have "distinct (out @ [x])" using Cons.prems(2) by simp
    moreover have "set (out @ [x]) \<subseteq> locks (s\<lparr>locks := insert x (locks s)\<rparr>)"
      using Cons.prems(3) by auto
    ultimately show ?thesis using Cons.IH [OF run] by auto
  next
    case False
    define s1 where "s1 = (if x \<notin> locks s then s\<lparr>locks := insert x (locks s)\<rparr> else s)"
    have run: "pop_all_loop xs s1 out = (cands, s')"
      using Cons.prems(1) False by (auto simp add: Let_def s1_def split: if_splits)
    have "set out \<subseteq> locks s1" using Cons.prems(3) by (auto simp add: s1_def)
    from Cons.IH [OF run Cons.prems(2) this] show ?thesis by (auto simp add: s1_def)
  qed
qed

lemma pop_all_candidates:
  assumes "pop_all s = (cands, s')"
  shows "distinct cands \<and> set cands \<subseteq> set (queue s)
       \<and> queue s' = queue s \<and> queue_running s' = queue_running s \<and> calls s' = calls s
       \<and> additional_exec_state s' = additional_exec_state s \<and> objects s' = objects s"
  using pop_all_loop_candidates [of "queue s" s "[]" cands s'] assms
  by (simp add: pop_all_def)

lemma placement_step_jobs:
  assumes "placement_step sim env objs job (jobs, f, p) = (stop, jobs1, current, p3)"
  shows "jobs1 = jobs \<or> jobs1 = jobs @ [job]"
  using assms by (auto simp add: placement_step_def Let_def split: prod.splits if_splits)

lemma placement_loop_jobs:
  assumes "distinct (jobs @ cands)"
  shows "distinct (fst (placement_loop sim env objs cands (jobs, f, p)))
       \<and> set (fst (placement_loop sim env objs cands (jobs, f, p))) \<subseteq> set jobs \<union> set cands"
  using assms
proof (induction cands arbitrary: jobs f p)
  case Nil
  then show ?case by simp
next
  case (Cons job rest)
  obtain stop jobs1 current p3 where
    step: "placement_step sim env objs job (jobs, f, p) = (stop, jobs1, current, p3)"
    by (cases "placement_step sim env objs job (jobs, f, p)") auto
  show ?case
  proof (cases stop)
    case True
    with step Cons.prems show ?thesis by auto
  next
    case False
    from placement_step_jobs [OF step] Cons.prems have "distinct (jobs1 @ rest)"
      and sub: "set jobs1 \<subseteq> set jobs \<union> {job}" by auto
    from Cons.IH [OF this(1), of current p3] sub step False show ?thesis by auto
  qed
qed

lemma refresh_loop_fields:
  assumes "refresh_loop now xs s = (err, s')"
  shows "queue s' = queue s \<and> queue_running s' = queue_running s \<and> calls s' = calls s
       \<and> additional_exec_state s' = additional_exec_state s \<and> locks s' = locks s"
  using assms
proof (induction xs arbitrary: s)
  case Nil
  then show ?case by simp
next
  case (Cons x xs)
  have keep: "queue (set_size s x v) = queue s \<and> queue_running (set_size s x v) = queue_running s
       \<and> calls (set_size s x v) = calls s
       \<and> additional_exec_state (set_size s x v) = additional_exec_state s
       \<and> locks (set_size s x v) = locks s" for v
    by (simp add: set_size_def update_object_def)
  show ?case
  proof (cases "additional_exec_state s x")
    case None
    with Cons.prems show ?thesis by simp
  next
    case (Some d)
    consider "last_time_scheduled d = 0"
      | "last_time_scheduled d \<noteq> 0" "exec_size (objects s x) \<le> 0"
      | "last_time_scheduled d \<noteq> 0" "\<not> exec_size (objects s x) \<le> 0"
      by blast
    then show ?thesis
    proof cases
      case 1
      with Cons.prems Some have "refresh_loop now xs s = (err, s')" by simp
      then show ?thesis by (rule Cons.IH)
    next
      case 2
      with Cons.prems Some obtain v where "refresh_loop now xs (set_size s x v) = (err, s')"
        by simp
      from Cons.IH [OF this] keep [of v] show ?thesis by simp
    next
      case 3
      with Cons.prems Some obtain v where "refresh_loop now xs (set_size s x v) = (err, s')"
        by (simp add: Let_def)
      from Cons.IH [OF this] keep [of v] show ?thesis by simp
    qed
  qed
qed

lemma refresh_fields:
  assumes "refresh_execution_sizes now s = (err, s')"
  shows "queue s' = queue s \<and> queue_running s' = queue_running s \<and> calls s' = calls s
       \<and> additional_exec_state s' = additional_exec_state s \<and> locks s' = locks s"
  using assms refresh_loop_fields [of now "queue s" s err s']
  by (auto simp add: refresh_execution_sizes_def split: if_splits)

lemma sort_queue_fields:
  "distinct (queue (sort_queue s)) = distinct (queue s) \<and> set (queue (sort_queue s)) = set (queue s)
   \<and> queue_running (sort_queue s) = queue_running s \<and> calls (sort_queue s) = calls s
   \<and> additional_exec_state (sort_queue s) = additional_exec_state s
   \<and> locks (sort_queue s) = locks s"
  by (simp add: sort_queue_def)

lemma commit_loop_calls_job:
  assumes "commit_loop env pl now jobs (cands, s) = (err, cands', s')"
    and "Start_essential job pl' ret \<in> set (drop (length (calls s)) (calls s'))"
  shows "job \<in> set jobs \<and> pl' = pl"
proof -
  from commit_loop_calls [OF assms(1)] obtain new where
    "calls s' = calls s @ new"
    "set new \<subseteq> (\<Union>j \<in> set jobs. insert (Start_elastic j pl) (range (Start_essential j pl)))"
    by blast
  with assms(2) show ?thesis by auto
qed

lemma inner_pass_fatal:
  assumes "distinct (queue s)"
    and "Start_essential job pl ''fatal''
           \<in> set (round_calls s (snd (inner_pass sim env now (Some st) s)))"
  shows "job \<notin> set (queue (snd (inner_pass sim env now (Some st) s)))
       \<and> job \<notin> locks (snd (inner_pass sim env now (Some st) s))
       \<and> additional_exec_state (snd (inner_pass sim env now (Some st) s)) job
           = additional_exec_state s job
       \<and> count_list (queue_running (snd (inner_pass sim env now (Some st) s))) job
           = count_list (queue_running s) job
       \<and> Start_elastic job pl \<notin> set (round_calls s (snd (inner_pass sim env now (Some st) s)))"
proof -
  obtain e1 s1 where refresh: "refresh_execution_sizes now s = (e1, s1)"
    by (cases "refresh_execution_sizes now s") auto
  note r = refresh_fields [OF refresh]
  show ?thesis
  proof (cases e1)
    case (Some a)
    with refresh have "snd (inner_pass sim env now (Some st) s) = s1"
      by (simp add: inner_pass_def)
    with assms(2) r show ?thesis by (simp add: round_calls_def)
  next
    case None
    define s2 where "s2 = sort_queue s1"
    obtain cands s3 where pop: "pop_all s2 = (cands, s3)"
      by (cases "pop_all s2") auto
    note q = sort_queue_fields [of s1, folded s2_def]
    note c = pop_all_candidates [OF pop]
    define p0 where "p0 = sim_new sim st"
    define res where "res = placement_loop sim env (objects s3) cands
        ([], sim_aggregated_free_memory sim p0, p0)"
    define jobs where "jobs = fst res"
    define placements where "placements = sim_get_service_allocation sim (snd (snd res))"
    have pass: "inner_pass sim env now (Some st) s
                  = commit_phase env placements now jobs (cands, s3)"
      using refresh None pop
      by (simp add: inner_pass_def Let_def s2_def p0_def res_def jobs_def placements_def
          case_prod_beta)
    have jobs: "distinct jobs" "set jobs \<subseteq> set cands"
      using placement_loop_jobs [of "[]" cands sim env "objects s3"
          "sim_aggregated_free_memory sim p0" p0] c
      by (simp_all add: jobs_def res_def)
    have calls3: "calls s3 = calls s" using r q c by simp
    let ?s' = "snd (commit_phase env placements now jobs (cands, s3))"
    have rc: "round_calls s3 ?s' = round_calls s ?s'"
      using calls3 by (simp add: round_calls_def)
    obtain e4 c4 s4 where loop: "commit_loop env placements now jobs (cands, s3) = (e4, c4, s4)"
      by (cases "commit_loop env placements now jobs (cands, s3)") auto
    have calls': "calls ?s' = calls s4"
    proof (cases e4)
      case None
      obtain e5 s5 where
        rp: "requeue_pass now c4 (s4\<lparr>core_limit_recalc_trigger := True\<rparr>) = (e5, s5)"
        by (cases "requeue_pass now c4 (s4\<lparr>core_limit_recalc_trigger := True\<rparr>)") auto
      from requeue_pass_fields [OF rp] loop None rp show ?thesis
        by (simp add: commit_phase_def)
    next
      case (Some a)
      with loop show ?thesis by (simp add: commit_phase_def)
    qed
    have fatal3: "Start_essential job pl ''fatal'' \<in> set (round_calls s3 ?s')"
      using assms(2) pass rc by simp
    then have "Start_essential job pl ''fatal'' \<in> set (drop (length (calls s3)) (calls s4))"
      using calls' by (simp add: round_calls_def)
    from commit_loop_calls_job [OF loop this] have job: "job \<in> set jobs" and pl: "pl = placements"
      by simp_all
    have "job \<in> set cands" using job jobs(2) by auto
    moreover have "job \<in> set (queue s3)" using \<open>job \<in> set cands\<close> c by auto
    moreover have "distinct (queue s3)" using assms(1) r q c by simp
    moreover have "distinct cands" using c by simp
    ultimately have d: "job \<notin> set (queue ?s') \<and> job \<notin> locks ?s'
       \<and> additional_exec_state ?s' job = additional_exec_state s3 job
       \<and> count_list (queue_running ?s') job = count_list (queue_running s3) job
       \<and> Start_elastic job placements \<notin> set (round_calls s3 ?s')"
      using commit_phase_fatal [OF jobs(1), of cands s3 job placements env now] fatal3 pl
      by simp
    have "additional_exec_state s3 = additional_exec_state s"
      "queue_running s3 = queue_running s"
      using r q c by simp_all
    with d rc pass pl show ?thesis by simp
  qed
qed


end
